theory Spec2Isabelle
  imports Main
begin

section \<open>Values of the program\<close>

text \<open>
  A JavaScript string is a sequence of UTF-16 code units; a code unit is modelled as a
  natural number. \<open>js\<close> turns a literal of the source into code units.
  Identifiers issued by the services (message, folder and spreadsheet identifiers) are
  opaque non-empty strings in the source; they are modelled as numbers, so an identifier
  that is present is always truthy.
\<close>

type_synonym jstring = "nat list"

type_synonym ident = nat

definition js :: "string \<Rightarrow> jstring" where
  "js s = map of_char s"

datatype error = TransportFailure | NotFound | TypeError | ENOENT

section \<open>The services the program talks to\<close>

text \<open>
  A message of the mailbox, as \<open>gmail.users.messages.get\<close> shows it: its identifier, its
  Subject header, whether it carries the label UNREAD, \<open>internalDate\<close> (epoch
  milliseconds, a decimal numeral that \<open>parseInt\<close> reads), and its payload. \<open>parts\<close> is \<open>payload.parts\<close> (absent for a message that is
  not multipart), each entry the \<open>body.data\<close> of that part; \<open>body_data\<close> is
  \<open>payload.body.data\<close>. The data are held decoded (the text that
  \<open>Buffer.from(data, 'base64').toString('utf8')\<close> yields); a missing \<open>data\<close> is \<open>None\<close>.
\<close>

record message =
  msg_id :: ident
  subject :: jstring
  unread :: bool
  internalDate :: nat
  parts :: "jstring option list option"
  body_data :: "jstring option"

text \<open>
  A spreadsheet file of the Drive: identifier, file name, parent folders and the rows of
  Sheet1 (each row the list of its cells).
\<close>

record spreadsheet =
  ss_id :: ident
  ss_name :: jstring
  ss_parents :: "ident list"
  ss_rows :: "jstring list list"

text \<open>The terms of a Gmail search query \<open>q\<close>, and the two formats of a message fetch.\<close>

datatype search_term = SubjectPhrase jstring | IsUnread | After nat

datatype format = Metadata | Full

text \<open>
  \<open>valueInputOption\<close> of a write to a sheet: the values are stored as they are sent,
  or read as if a user had typed them into the cells.
\<close>

datatype value_input_option = RAW | USER_ENTERED

text \<open>One constructor for each request the program sends to a remote service.\<close>

datatype call =
    Authorize
  | MessagesList "search_term list" nat
  | MessagesGet ident format
  | MessagesModify ident
  | FilesListFolders
  | FilesCreateFolder
  | FilesListSheets ident
  | SpreadsheetsGet ident
  | SpreadsheetsCreate
  | SpreadsheetsBatchUpdate ident
  | FilesUpdate ident ident
  | ValuesGet ident
  | ValuesAppend ident value_input_option "jstring list"
  | FilesExport "ident option"
  | SendMail

text \<open>
  The state the program runs in: the clock (epoch milliseconds), the mailbox, the
  folders and spreadsheet files of the Drive, how the spreadsheet service reads a typed
  cell, whether the temporary file GrowthTrackSignups.xlsx exists in the working
  directory, the requests sent so far (oldest first), and the transport failures to
  come: request number \<open>n\<close> (counted from 0) fails iff \<open>faults n\<close>.

  \<open>entered c\<close> is what a cell reads back as (the formatted value that \<open>values.get\<close>
  returns) after the text \<open>c\<close> was written into it with the input option
  \<open>USER_ENTERED\<close>. The service takes a text that it can read as a number, a date, a
  truth value or a formula for that value, and shows the value in its own format, so
  that a cell need not read back as the text written: the digits 0712345678 are the
  number 712345678. Which texts are converted is the affair of the service and of the
  settings of the spreadsheet, not of the program.
\<close>

record world =
  now :: nat
  mailbox :: "message list"
  folders :: "(ident \<times> jstring) list"
  files :: "spreadsheet list"
  entered :: "jstring \<Rightarrow> jstring"
  tempfile :: bool
  calls :: "call list"
  faults :: "nat \<Rightarrow> bool"

text \<open>
  An asynchronous function of the source is a function from the state to a result (the
  value returned, or the error thrown) and the state it leaves.
  \<open>writeLog\<close> (console output and an append to the local log file) is taken as
  infallible and is left out: nothing else reads the log.
\<close>

type_synonym 'a io = "world \<Rightarrow> (error + 'a) \<times> world"

definition ret :: "'a \<Rightarrow> 'a io" where
  "ret x w = (Inr x, w)"

definition throw :: "error \<Rightarrow> 'a io" where
  "throw e w = (Inl e, w)"

definition andThen :: "'a io \<Rightarrow> ('a \<Rightarrow> 'b io) \<Rightarrow> 'b io" where
  "andThen m f w = (case m w of (Inl e, w') \<Rightarrow> (Inl e, w') | (Inr x, w') \<Rightarrow> f x w')"

text \<open>
  Sending a request: it is recorded, and it throws when the transport fails, leaving the
  service as it was.
\<close>

definition request :: "call \<Rightarrow> unit io" where
  "request c w =
     (if faults w (length (calls w))
      then (Inl TransportFailure, w\<lparr>calls := calls w @ [c]\<rparr>)
      else (Inr (), w\<lparr>calls := calls w @ [c]\<rparr>))"

definition no_faults :: "world \<Rightarrow> bool" where
  "no_faults w = (\<forall>n. \<not> faults w n)"

subsection \<open>Gmail\<close>

text \<open>
  The search of the mailbox: a message is a hit when every term of the query holds for
  it. A subject term holds when the phrase occurs in the Subject header, \<open>is:unread\<close>
  when the message carries UNREAD, \<open>after:t\<close> (\<open>t\<close> in epoch seconds) when the message
  was received after \<open>t\<close>. \<open>messages.list\<close> answers with the first page: at most
  \<open>maxResults\<close> hits, and no \<open>messages\<close> property at all when there is no hit.
\<close>

fun starts_with :: "'a list \<Rightarrow> 'a list \<Rightarrow> bool" where
  "starts_with [] s = True"
| "starts_with (p # ps) [] = False"
| "starts_with (p # ps) (c # cs) = (p = c \<and> starts_with ps cs)"

fun contains :: "'a list \<Rightarrow> 'a list \<Rightarrow> bool" where
  "contains p [] = (p = [])"
| "contains p (c # cs) = (starts_with p (c # cs) \<or> contains p cs)"

fun term_holds :: "search_term \<Rightarrow> message \<Rightarrow> bool" where
  "term_holds (SubjectPhrase p) m = contains p (subject m)"
| "term_holds IsUnread m = unread m"
| "term_holds (After t) m = (t * 1000 < internalDate m)"

definition matching :: "search_term list \<Rightarrow> world \<Rightarrow> message list" where
  "matching q w = filter (\<lambda>m. list_all (\<lambda>t. term_holds t m) q) (mailbox w)"

definition hits :: "search_term list \<Rightarrow> nat \<Rightarrow> world \<Rightarrow> ident list" where
  "hits q maxResults w = map msg_id (take maxResults (matching q w))"

definition messages_list :: "search_term list \<Rightarrow> nat \<Rightarrow> ident list option io" where
  "messages_list q maxResults =
     andThen (request (MessagesList q maxResults))
       (\<lambda>_ w. (Inr (if hits q maxResults w = [] then None else Some (hits q maxResults w)), w))"

definition messages_get :: "ident \<Rightarrow> format \<Rightarrow> message io" where
  "messages_get i fmt =
     andThen (request (MessagesGet i fmt))
       (\<lambda>_ w. case find (\<lambda>m. msg_id m = i) (mailbox w) of
                 None \<Rightarrow> (Inl NotFound, w)
               | Some m \<Rightarrow> (Inr m, w))"

definition messages_modify :: "ident \<Rightarrow> unit io" where
  "messages_modify i =
     andThen (request (MessagesModify i))
       (\<lambda>_ w. if i \<in> set (map msg_id (mailbox w))
               then (Inr (), w\<lparr>mailbox := map (\<lambda>m. if msg_id m = i then m\<lparr>unread := False\<rparr> else m)
                                              (mailbox w)\<rparr>)
               else (Inl NotFound, w))"

section \<open>queryEmails\<close>

text \<open>
  \<open>response.data.messages || []\<close>: an absent property reads as the empty list.
\<close>

definition or_empty :: "'a list option \<Rightarrow> 'a list" where
  "or_empty r = (case r of None \<Rightarrow> [] | Some ms \<Rightarrow> ms)"

definition primary_query :: "search_term list" where
  "primary_query = [SubjectPhrase (js ''Growth Track Signup''), IsUnread]"

definition secondary_query :: "search_term list" where
  "secondary_query = [SubjectPhrase (js ''Growth Track Sign Up Form''), IsUnread]"

text \<open>The loop that fetches and logs the subject of every message found.\<close>

fun log_subjects :: "ident list \<Rightarrow> unit io" where
  "log_subjects [] = ret ()"
| "log_subjects (m # ms) = andThen (messages_get m Metadata) (\<lambda>_. log_subjects ms)"

text \<open>
  \<open>queryEmails\<close>. The source computes \<open>after\<close> (seven days before now, in epoch seconds)
  and then builds both queries without it. Its \<open>catch\<close> logs and rethrows, which leaves
  the error as it is.
\<close>

definition queryEmails :: "ident list io" where
  "queryEmails w0 =
     (let sevenDaysAgo = int (now w0) - 7 * 86400000;
          after = sevenDaysAgo div 1000
      in andThen (messages_list primary_query 100) (\<lambda>response.
         andThen (if length (or_empty response) = 0
                  then andThen (messages_list secondary_query 100) (\<lambda>response. ret (or_empty response))
                  else ret (or_empty response)) (\<lambda>messages.
         andThen (if length messages > 0 then log_subjects messages else ret ()) (\<lambda>_.
         ret messages))) w0)"

section \<open>extractSignupInfo\<close>

subsection \<open>The three patterns\<close>

text \<open>
  The patterns are sequences of literal text, a greedy \<open>\s*\<close> and the capturing group
  \<open>([^<]+)\<close>. With the flag \<open>i\<close> two code units match when their canonical forms are
  equal; the canonical form of an ASCII letter is its upper case, and no code unit
  outside ASCII has an ASCII canonical form, so against the ASCII text of the patterns
  only the ASCII letters need folding.
\<close>

datatype cclass = Space | Except nat

datatype atom = Lit jstring | Star cclass | Group1Plus cclass

definition is_space :: "nat \<Rightarrow> bool" where
  "is_space c = (c = 9 \<or> c = 10 \<or> c = 11 \<or> c = 12 \<or> c = 13 \<or> c = 32 \<or> c = 160 \<or> c = 5760
                 \<or> (8192 \<le> c \<and> c \<le> 8202) \<or> c = 8232 \<or> c = 8233 \<or> c = 8239 \<or> c = 8287
                 \<or> c = 12288 \<or> c = 65279)"

fun in_class :: "cclass \<Rightarrow> nat \<Rightarrow> bool" where
  "in_class Space c = is_space c"
| "in_class (Except x) c = (c \<noteq> x)"

definition canonicalize :: "nat \<Rightarrow> nat" where
  "canonicalize c = (if 97 \<le> c \<and> c \<le> 122 then c - 32 else c)"

fun starts_with_ci :: "jstring \<Rightarrow> jstring \<Rightarrow> bool" where
  "starts_with_ci [] s = True"
| "starts_with_ci (p # ps) [] = False"
| "starts_with_ci (p # ps) (c # cs) = (canonicalize p = canonicalize c \<and> starts_with_ci ps cs)"

fun first_some :: "'a option list \<Rightarrow> 'a option" where
  "first_some [] = None"
| "first_some (None # xs) = first_some xs"
| "first_some (Some x # xs) = Some x"

text \<open>
  Matching at the start of \<open>s\<close>, with backtracking: a quantified class first takes as
  many code units as it can and gives them back one by one while the rest of the pattern
  fails. The result is the capture of group 1 when the pattern matches.
\<close>

fun rx_match :: "atom list \<Rightarrow> jstring \<Rightarrow> jstring option \<Rightarrow> jstring option option" where
  "rx_match [] s cap = Some cap"
| "rx_match (Lit l # r) s cap =
     (if starts_with_ci l s then rx_match r (drop (length l) s) cap else None)"
| "rx_match (Star k # r) s cap =
     first_some (map (\<lambda>n. rx_match r (drop n s) cap)
                     (rev [0..<Suc (length (takeWhile (in_class k) s))]))"
| "rx_match (Group1Plus k # r) s cap =
     first_some (map (\<lambda>n. rx_match r (drop n s) (Some (take n s)))
                     (rev [1..<Suc (length (takeWhile (in_class k) s))]))"

text \<open>\<open>body.match(pattern)\<close>: the leftmost position at which the pattern matches.\<close>

fun rx_exec :: "atom list \<Rightarrow> jstring \<Rightarrow> jstring option option" where
  "rx_exec p [] = rx_match p [] None"
| "rx_exec p (c # cs) =
     (case rx_match p (c # cs) None of Some cap \<Rightarrow> Some cap | None \<Rightarrow> rx_exec p cs)"

definition name_pattern :: "atom list" where
  \<open>name_pattern = [Lit (js ''<td valign="top">Full Name:</td>''), Star Space,
                   Lit (js ''<td>''), Group1Plus (Except 60), Lit (js ''</td>'')]\<close>

definition phone_pattern :: "atom list" where
  \<open>phone_pattern = [Lit (js ''<td valign="top">Phone:</td>''), Star Space,
                    Lit (js ''<td>''), Group1Plus (Except 60), Lit (js ''</td>'')]\<close>

definition email_pattern :: "atom list" where
  \<open>email_pattern = [Lit (js ''<td valign="top">Email:</td>''), Star Space,
                    Lit (js ''<td>''), Group1Plus (Except 60), Lit (js ''</td>'')]\<close>

text \<open>The common shape of the three patterns, \<open>lab\<close> being the text of the label cell.\<close>

definition cell_pattern :: "jstring \<Rightarrow> atom list" where
  "cell_pattern lab =
     [Lit lab, Star Space, Lit (js ''<td>''), Group1Plus (Except 60), Lit (js ''</td>'')]"

definition trim :: "jstring \<Rightarrow> jstring" where
  "trim s = rev (dropWhile is_space (rev (dropWhile is_space s)))"

text \<open>
  One turn of the loop over the patterns: \<open>match[1].trim()\<close> on a match (a TypeError if
  group 1 took no part in it), the empty string otherwise.
\<close>

definition extract_field :: "atom list \<Rightarrow> jstring \<Rightarrow> error + jstring" where
  "extract_field pattern body =
     (case rx_exec pattern body of
        None \<Rightarrow> Inr []
      | Some None \<Rightarrow> Inl TypeError
      | Some (Some v) \<Rightarrow> Inr (trim v))"

text \<open>\<open>x || 'Not provided'\<close>: the empty string is falsy.\<close>

definition or_default :: "jstring \<Rightarrow> jstring \<Rightarrow> jstring" where
  "or_default x d = (if x = [] then d else x)"

subsection \<open>formatDate\<close>

text \<open>
  \<open>date.toLocaleDateString('en-ZA', options)\<close> with \<open>timeZone: 'Africa/Johannesburg'\<close>:
  the civil date of the instant two hours ahead of UTC (the zone has kept this offset,
  with no daylight saving time, since 1944). For the options \<open>year: 'numeric'\<close>,
  \<open>month: 'long'\<close>, \<open>day: 'numeric'\<close> the locale en-ZA writes the day of the month
  without padding, the month name and the year, a space between them: 5 March 2024.
  The Gregorian calendar is counted forward from 1 January 1970.
\<close>

definition is_leap :: "nat \<Rightarrow> bool" where
  "is_leap y = (y mod 4 = 0 \<and> (y mod 100 \<noteq> 0 \<or> y mod 400 = 0))"

definition year_length :: "nat \<Rightarrow> nat" where
  "year_length y = (if is_leap y then 366 else 365)"

definition month_length :: "nat \<Rightarrow> nat \<Rightarrow> nat" where
  "month_length y m =
     (if m = 2 then (if is_leap y then 29 else 28)
      else if m = 4 \<or> m = 6 \<or> m = 9 \<or> m = 11 then 30 else 31)"

function year_from :: "nat \<Rightarrow> nat \<Rightarrow> nat \<times> nat" where
  "year_from y n = (if n < year_length y then (y, n) else year_from (Suc y) (n - year_length y))"
  by pat_completeness auto
termination
  by (relation "measure (\<lambda>(y, n). n)") (auto simp: year_length_def)

function month_from :: "nat \<Rightarrow> nat \<Rightarrow> nat \<Rightarrow> nat \<times> nat" where
  "month_from y m n =
     (if 12 \<le> m \<or> n < month_length y m then (m, n)
      else month_from y (Suc m) (n - month_length y m))"
  by pat_completeness auto
termination
  by (relation "measure (\<lambda>(y, m, n). 12 - m)") auto

text \<open>
  \<open>civil n\<close> is the date (year, month, day of the month) of day number \<open>n\<close>, day 0
  being 1 January 1970; \<open>day_number\<close> counts the days the other way round.
\<close>

definition day_number :: "nat \<times> nat \<times> nat \<Rightarrow> nat" where
  "day_number ymd =
     (case ymd of (y, m, d) \<Rightarrow>
        sum_list (map year_length [1970..<y]) + sum_list (map (month_length y) [1..<m]) + (d - 1))"

definition civil :: "nat \<Rightarrow> nat \<times> nat \<times> nat" where
  "civil days =
     (case year_from 1970 days of (y, doy) \<Rightarrow>
        (case month_from y 1 doy of (m, d) \<Rightarrow> (y, m, Suc d)))"

function show_nat :: "nat \<Rightarrow> jstring" where
  "show_nat n = (if n < 10 then [48 + n] else show_nat (n div 10) @ [48 + n mod 10])"
  by pat_completeness auto
termination
  by (relation "measure (\<lambda>n. n)") auto

definition month_names :: "jstring list" where
  "month_names = map js [''January'', ''February'', ''March'', ''April'', ''May'', ''June'',
     ''July'', ''August'', ''September'', ''October'', ''November'', ''December'']"

definition en_ZA_long :: "nat \<times> nat \<times> nat \<Rightarrow> jstring" where
  "en_ZA_long ymd =
     (case ymd of (y, m, d) \<Rightarrow>
        show_nat d @ js '' '' @ month_names ! (m - 1) @ js '' '' @ show_nat y)"

text \<open>
  \<open>formatDate\<close> of the Date made from \<open>t\<close> epoch milliseconds; a Date past the last
  representable instant is invalid and prints as such.
\<close>

definition formatDate :: "nat \<Rightarrow> jstring" where
  "formatDate t =
     (if 8640000000000000 < t then js ''Invalid Date''
      else en_ZA_long (civil ((t + 7200000) div 86400000)))"

subsection \<open>The record of one message\<close>

record signup =
  date :: jstring
  name :: jstring
  phone :: jstring
  email :: jstring

text \<open>
  The body: the data of the first part when the payload has \<open>parts\<close>, the data of the
  payload's own body otherwise. \<open>Buffer.from\<close> throws a TypeError on missing data, and
  so does reading \<open>parts[0].body\<close> of an empty \<open>parts\<close>.
\<close>

definition decode_body :: "message \<Rightarrow> error + jstring" where
  "decode_body m =
     (case parts m of
        Some ps \<Rightarrow> (case ps of
                      [] \<Rightarrow> Inl TypeError
                    | p # _ \<Rightarrow> (case p of None \<Rightarrow> Inl TypeError | Some d \<Rightarrow> Inr d))
      | None \<Rightarrow> (case body_data m of None \<Rightarrow> Inl TypeError | Some d \<Rightarrow> Inr d))"

definition lift :: "error + 'a \<Rightarrow> 'a io" where
  "lift r w = (r, w)"

definition extractSignupInfo :: "ident \<Rightarrow> signup io" where
  "extractSignupInfo messageId =
     andThen (messages_get messageId Full) (\<lambda>res.
     andThen (lift (decode_body res)) (\<lambda>body.
     andThen (lift (extract_field name_pattern body)) (\<lambda>extracted_name.
     andThen (lift (extract_field phone_pattern body)) (\<lambda>extracted_phone.
     andThen (lift (extract_field email_pattern body)) (\<lambda>extracted_email.
       ret \<lparr>date = formatDate (internalDate res),
            name = or_default extracted_name (js ''Not provided''),
            phone = or_default extracted_phone (js ''Not provided''),
            email = or_default extracted_email (js ''Not provided'')\<rparr>)))))"

subsection \<open>Labelled rows\<close>

text \<open>
  What the patterns are written for: a two-cell table row, that is the label cell, any
  white space, and a value cell \<open><td>v</td>\<close> whose content \<open>v\<close> is a non-empty run
  of code units other than \<open><\<close>; letter case is free in the markup and in the label.
  \<open>row_at cell s v\<close>: \<open>s\<close> starts with such a row, \<open>cell\<close> being the text of its label
  cell. \<open>has_row\<close>: the body holds such a row somewhere. \<open>first_row\<close>: \<open>v\<close> is the
  content of the value cell of the first of them.
\<close>

definition name_label :: jstring where
  \<open>name_label = js ''<td valign="top">Full Name:</td>''\<close>

definition phone_label :: jstring where
  \<open>phone_label = js ''<td valign="top">Phone:</td>''\<close>

definition email_label :: jstring where
  \<open>email_label = js ''<td valign="top">Email:</td>''\<close>

definition ci_eq :: "jstring \<Rightarrow> jstring \<Rightarrow> bool" where
  "ci_eq a b = (map canonicalize a = map canonicalize b)"

definition row_at :: "jstring \<Rightarrow> jstring \<Rightarrow> jstring \<Rightarrow> bool" where
  "row_at label_cell s v =
     (\<exists>l ws td_open td_close rest.
        s = l @ ws @ td_open @ v @ td_close @ rest \<and>
        ci_eq l label_cell \<and> list_all is_space ws \<and> ci_eq td_open (js ''<td>'') \<and>
        v \<noteq> [] \<and> list_all (\<lambda>c. c \<noteq> 60) v \<and> ci_eq td_close (js ''</td>''))"

definition has_row :: "jstring \<Rightarrow> jstring \<Rightarrow> bool" where
  "has_row label_cell body = (\<exists>k v. row_at label_cell (drop k body) v)"

definition first_row :: "jstring \<Rightarrow> jstring \<Rightarrow> jstring \<Rightarrow> bool" where
  "first_row label_cell body v =
     (\<exists>k. row_at label_cell (drop k body) v \<and>
          (\<forall>j<k. \<forall>v'. \<not> row_at label_cell (drop j body) v'))"

section \<open>The store\<close>

subsection \<open>Drive and Sheets\<close>

text \<open>
  The two lookups of \<open>drive.files.list\<close> take the first match (\<open>files[0]\<close>) in the
  order of the Drive. A new folder or file gets an identifier that the Drive has not
  used. \<open>rows_of\<close> reads the rows of a spreadsheet by its identifier.
\<close>

definition folder_name :: jstring where
  "folder_name = js ''Growth Track Registrations''"

definition sheet_name :: jstring where
  "sheet_name = js ''Growth Track Signups''"

definition header_row :: "jstring list" where
  "header_row = [js ''Registration Date'', js ''Full Name'', js ''Phone'', js ''Email'']"

definition find_folder :: "world \<Rightarrow> ident option" where
  "find_folder w = map_option fst (find (\<lambda>f. snd f = folder_name) (folders w))"

definition find_sheet :: "ident \<Rightarrow> world \<Rightarrow> ident option" where
  "find_sheet folderId w =
     map_option ss_id (find (\<lambda>f. folderId \<in> set (ss_parents f) \<and> ss_name f = sheet_name) (files w))"

definition find_file :: "ident \<Rightarrow> world \<Rightarrow> spreadsheet option" where
  "find_file i w = find (\<lambda>f. ss_id f = i) (files w)"

definition rows_of :: "world \<Rightarrow> ident \<Rightarrow> jstring list list" where
  "rows_of w i = (case find_file i w of None \<Rightarrow> [] | Some f \<Rightarrow> ss_rows f)"

definition all_ids :: "world \<Rightarrow> ident list" where
  "all_ids w = map fst (folders w) @ map ss_id (files w) @ concat (map ss_parents (files w))"

definition fresh_id :: "world \<Rightarrow> ident" where
  "fresh_id w = Suc (fold max (all_ids w) 0)"

definition drive_list_folders :: "ident option io" where
  "drive_list_folders = andThen (request FilesListFolders) (\<lambda>_ w. (Inr (find_folder w), w))"

definition drive_create_folder :: "ident io" where
  "drive_create_folder =
     andThen (request FilesCreateFolder)
       (\<lambda>_ w. (Inr (fresh_id w), w\<lparr>folders := folders w @ [(fresh_id w, folder_name)]\<rparr>))"

definition drive_list_sheets :: "ident \<Rightarrow> ident option io" where
  "drive_list_sheets folderId =
     andThen (request (FilesListSheets folderId)) (\<lambda>_ w. (Inr (find_sheet folderId w), w))"

definition spreadsheets_get :: "ident \<Rightarrow> unit io" where
  "spreadsheets_get i =
     andThen (request (SpreadsheetsGet i))
       (\<lambda>_ w. case find_file i w of None \<Rightarrow> (Inl NotFound, w) | Some f \<Rightarrow> (Inr (), w))"

definition spreadsheets_create :: "ident io" where
  "spreadsheets_create =
     andThen (request SpreadsheetsCreate)
       (\<lambda>_ w. (Inr (fresh_id w),
                w\<lparr>files := files w @ [\<lparr>ss_id = fresh_id w, ss_name = sheet_name,
                                        ss_parents = [], ss_rows = [header_row]\<rparr>]\<rparr>))"

text \<open>The header formatting: it changes nothing that the program reads back.\<close>

definition spreadsheets_batchUpdate :: "ident \<Rightarrow> unit io" where
  "spreadsheets_batchUpdate i =
     andThen (request (SpreadsheetsBatchUpdate i))
       (\<lambda>_ w. case find_file i w of None \<Rightarrow> (Inl NotFound, w) | Some f \<Rightarrow> (Inr (), w))"

definition drive_update :: "ident \<Rightarrow> ident \<Rightarrow> unit io" where
  "drive_update i addParents =
     andThen (request (FilesUpdate i addParents))
       (\<lambda>_ w. case find_file i w of
                 None \<Rightarrow> (Inl NotFound, w)
               | Some f \<Rightarrow>
                   (Inr (), w\<lparr>files := map (\<lambda>f. if ss_id f = i
                                                then f\<lparr>ss_parents := ss_parents f @ [addParents]\<rparr>
                                                else f) (files w)\<rparr>))"

text \<open>
  \<open>values.get\<close> of the range Sheet1!A:D answers with no \<open>values\<close> property when the
  sheet is empty. \<open>values.append\<close> adds the row after the last one; \<open>as_stored\<close> is
  what the cells of the new row read back as, given the input option of the request.
\<close>

definition as_stored :: "world \<Rightarrow> value_input_option \<Rightarrow> jstring list \<Rightarrow> jstring list" where
  "as_stored w opt row = (case opt of RAW \<Rightarrow> row | USER_ENTERED \<Rightarrow> map (entered w) row)"

definition values_get :: "ident \<Rightarrow> jstring list list option io" where
  "values_get i =
     andThen (request (ValuesGet i))
       (\<lambda>_ w. case find_file i w of
                 None \<Rightarrow> (Inl NotFound, w)
               | Some f \<Rightarrow> (Inr (if ss_rows f = [] then None else Some (ss_rows f)), w))"

definition values_append :: "ident \<Rightarrow> value_input_option \<Rightarrow> jstring list \<Rightarrow> unit io" where
  "values_append i valueInputOption row =
     andThen (request (ValuesAppend i valueInputOption row))
       (\<lambda>_ w. case find_file i w of
                 None \<Rightarrow> (Inl NotFound, w)
               | Some f \<Rightarrow>
                   (Inr (), w\<lparr>files := map (\<lambda>f. if ss_id f = i
                                                then f\<lparr>ss_rows := ss_rows f @
                                                         [as_stored w valueInputOption row]\<rparr>
                                                else f) (files w)\<rparr>))"

definition drive_export :: "ident option \<Rightarrow> unit io" where
  "drive_export fileId =
     andThen (request (FilesExport fileId))
       (\<lambda>_ w. case fileId of
                 None \<Rightarrow> (Inl NotFound, w)
               | Some i \<Rightarrow> (case find_file i w of None \<Rightarrow> (Inl NotFound, w) | Some f \<Rightarrow> (Inr (), w)))"

subsection \<open>createOrGetSpreadsheet, saveToGoogleSheets, isDuplicateEntry\<close>

definition createOrGetSpreadsheet :: "ident io" where
  "createOrGetSpreadsheet =
     andThen drive_list_folders (\<lambda>folderResponse.
     andThen (case folderResponse of
                Some i \<Rightarrow> ret i
              | None \<Rightarrow> drive_create_folder) (\<lambda>folderId.
     andThen (drive_list_sheets folderId) (\<lambda>spreadsheetResponse.
       (case spreadsheetResponse of
          Some spreadsheetId \<Rightarrow>
            andThen (spreadsheets_get spreadsheetId) (\<lambda>_. ret spreadsheetId)
        | None \<Rightarrow>
            andThen spreadsheets_create (\<lambda>spreadsheetId.
            andThen (spreadsheets_batchUpdate spreadsheetId) (\<lambda>_.
            andThen (drive_update spreadsheetId folderId) (\<lambda>_.
            ret spreadsheetId)))))))"

definition saveToGoogleSheets :: "signup \<Rightarrow> ident io" where
  "saveToGoogleSheets data =
     andThen createOrGetSpreadsheet (\<lambda>spreadsheetId.
     andThen (values_append spreadsheetId USER_ENTERED
                [date data, name data, phone data, email data]) (\<lambda>_.
     ret spreadsheetId))"

text \<open>\<open>row[k]\<close>: \<open>undefined\<close> past the end of the row.\<close>

definition cell :: "jstring list \<Rightarrow> nat \<Rightarrow> jstring option" where
  "cell row k = (if k < length row then Some (row ! k) else None)"

definition isDuplicateEntry :: "signup \<Rightarrow> ident \<Rightarrow> bool io" where
  "isDuplicateEntry data spreadsheetId =
     andThen (values_get spreadsheetId) (\<lambda>response.
     ret (list_ex (\<lambda>row. cell row 1 = Some (name data) \<and>
                          cell row 2 = Some (phone data) \<and>
                          cell row 3 = Some (email data)) (or_empty response)))"

section \<open>sendEmail and markEmailAsRead\<close>

text \<open>
  The two operations on the temporary file: \<open>fs.writeFile\<close> creates it, \<open>fs.unlink\<close>
  removes it and throws when there is none.
\<close>

definition writeFile :: "unit io" where
  "writeFile w = (Inr (), w\<lparr>tempfile := True\<rparr>)"

definition unlink :: "unit io" where
  "unlink w = (if tempfile w then (Inr (), w\<lparr>tempfile := False\<rparr>) else (Inl ENOENT, w))"

text \<open>
  \<open>sendEmail\<close>: the \<open>try\<close> block, and the \<open>catch\<close> that unlinks (ignoring a failure of
  the unlink) and rethrows.
\<close>

definition sendEmail :: "ident option \<Rightarrow> unit io" where
  "sendEmail spreadsheetId w =
     (case andThen (drive_export spreadsheetId) (\<lambda>_.
           andThen writeFile (\<lambda>_.
           andThen (request SendMail) (\<lambda>_.
           unlink))) w of
        (Inl e, w') \<Rightarrow> (case unlink w' of (_, w'') \<Rightarrow> (Inl e, w''))
      | (Inr u, w') \<Rightarrow> (Inr u, w'))"

definition markEmailAsRead :: "ident \<Rightarrow> unit io" where
  "markEmailAsRead messageId = messages_modify messageId"

section \<open>main\<close>

text \<open>The variables of \<open>main\<close> that live across the loop.\<close>

record loop_state =
  spreadsheetId :: "ident option"
  processedCount :: nat
  skippedCount :: nat

definition initial_state :: loop_state where
  "initial_state = \<lparr>spreadsheetId = None, processedCount = 0, skippedCount = 0\<rparr>"

definition authorize :: "unit io" where
  "authorize = request Authorize"

text \<open>
  One turn of the loop: the \<open>try\<close> block with its \<open>catch\<close>, which logs and goes on to
  the next message. What was assigned before the error stays assigned.
\<close>

definition process_message :: "ident \<Rightarrow> loop_state \<Rightarrow> world \<Rightarrow> loop_state \<times> world" where
  "process_message messageId st w =
     (case extractSignupInfo messageId w of
        (Inl e, w1) \<Rightarrow> (st, w1)
      | (Inr signupInfo, w1) \<Rightarrow>
          (case (case spreadsheetId st of
                   None \<Rightarrow> createOrGetSpreadsheet w1
                 | Some i \<Rightarrow> (Inr i, w1)) of
             (Inl e, w2) \<Rightarrow> (st, w2)
           | (Inr i, w2) \<Rightarrow>
               (case isDuplicateEntry signupInfo i w2 of
                  (Inl e, w3) \<Rightarrow> (st\<lparr>spreadsheetId := Some i\<rparr>, w3)
                | (Inr isDuplicate, w3) \<Rightarrow>
                    (if isDuplicate
                     then (case markEmailAsRead messageId w3 of
                             (_, w5) \<Rightarrow>
                               (st\<lparr>spreadsheetId := Some i, skippedCount := Suc (skippedCount st)\<rparr>, w5))
                     else (case saveToGoogleSheets signupInfo w3 of
                             (Inl e, w4) \<Rightarrow> (st\<lparr>spreadsheetId := Some i\<rparr>, w4)
                           | (Inr j, w4) \<Rightarrow>
                               (case markEmailAsRead messageId w4 of
                                  (_, w5) \<Rightarrow>
                                    (st\<lparr>spreadsheetId := Some j,
                                        processedCount := Suc (processedCount st)\<rparr>, w5)))))))"

fun process_messages :: "ident list \<Rightarrow> loop_state \<Rightarrow> world \<Rightarrow> loop_state \<times> world" where
  "process_messages [] st w = (st, w)"
| "process_messages (m # ms) st w =
     (case process_message m st w of (st', w') \<Rightarrow> process_messages ms st' w')"

text \<open>
  \<open>main\<close> returns nothing and catches every error; the model returns the variables of
  the loop as they stand at the end (as they were initialised when the run stops before
  the loop), and the state the run leaves.
\<close>

definition main :: "world \<Rightarrow> loop_state \<times> world" where
  "main w =
     (case authorize w of
        (Inl e, w1) \<Rightarrow> (initial_state, w1)
      | (Inr auth, w1) \<Rightarrow>
          (case queryEmails w1 of
             (Inl e, w2) \<Rightarrow> (initial_state, w2)
           | (Inr messages, w2) \<Rightarrow>
               (case process_messages messages initial_state w2 of
                  (st, w3) \<Rightarrow>
                    (if processedCount st > 0
                     then (case sendEmail (spreadsheetId st) w3 of (_, w4) \<Rightarrow> (st, w4))
                     else (st, w3)))))"

section \<open>Notions for the statements\<close>

text \<open>
  The store of a state is the spreadsheet that \<open>createOrGetSpreadsheet\<close> finds in it:
  the first spreadsheet of the right name in the first folder of the right name.
  \<open>unique_rows\<close>: below the header, no two rows of the store have the same name, phone
  and email cells.
\<close>

definition find_store :: "world \<Rightarrow> ident option" where
  "find_store w = (case find_folder w of None \<Rightarrow> None | Some f \<Rightarrow> find_sheet f w)"

definition triple_of :: "jstring list \<Rightarrow> jstring option \<times> jstring option \<times> jstring option" where
  "triple_of row = (cell row 1, cell row 2, cell row 3)"

definition unique_rows :: "world \<Rightarrow> bool" where
  "unique_rows w =
     (case find_store w of
        None \<Rightarrow> True
      | Some i \<Rightarrow> distinct (map triple_of (tl (rows_of w i))))"

text \<open>
  \<open>cache_ok\<close>: the identifier that \<open>main\<close> holds, when it holds one, is the store.
\<close>

definition cache_ok :: "loop_state \<Rightarrow> world \<Rightarrow> bool" where
  "cache_ok st w = (spreadsheetId st = None \<or> spreadsheetId st = find_store w)"

definition is_duplicate :: "signup \<Rightarrow> jstring list list \<Rightarrow> bool" where
  "is_duplicate d rows =
     list_ex (\<lambda>row. cell row 1 = Some (name d) \<and> cell row 2 = Some (phone d) \<and>
                       cell row 3 = Some (email d)) rows"

text \<open>
  \<open>field_of pattern m\<close> is the field that \<open>extractSignupInfo\<close> reads in the
  message \<open>m\<close> with one of its patterns, when it returns a record for \<open>m\<close>.
  \<open>cells_kept\<close>: every name, phone and email that it reads in a message of the
  mailbox is a text that a cell of the sheet reads back as it was written.
\<close>

definition field_of :: "atom list \<Rightarrow> message \<Rightarrow> jstring option" where
  "field_of pattern m =
     (case decode_body m of
        Inl e \<Rightarrow> None
      | Inr body \<Rightarrow>
          (case extract_field pattern body of
             Inl e \<Rightarrow> None
           | Inr x \<Rightarrow> Some (or_default x (js ''Not provided''))))"

definition cells_kept :: "world \<Rightarrow> bool" where
  "cells_kept w =
     (\<forall>m\<in>set (mailbox w). \<forall>pattern\<in>{name_pattern, phone_pattern, email_pattern}. \<forall>c.
        field_of pattern m = Some c \<longrightarrow> entered w c = c)"

text \<open>Counting the requests of a run: folder lookups, exports and sends.\<close>

definition lookups :: "world \<Rightarrow> nat" where
  "lookups w = count_list (calls w) FilesListFolders"

fun is_export :: "call \<Rightarrow> bool" where
  "is_export (FilesExport i) = True"
| "is_export c = False"

definition exports :: "world \<Rightarrow> nat" where
  "exports w = length (filter is_export (calls w))"

definition sends :: "world \<Rightarrow> nat" where
  "sends w = count_list (calls w) SendMail"

text \<open>
  \<open>quiet w w'\<close>: from \<open>w\<close> to \<open>w'\<close> nothing was exported or sent, and the temporary
  file and the failures to come are as they were.
\<close>

definition quiet :: "world \<Rightarrow> world \<Rightarrow> bool" where
  "quiet w w' = (exports w' = exports w \<and> sends w' = sends w \<and> tempfile w' = tempfile w \<and>
                 faults w' = faults w)"

definition row_of :: "signup \<Rightarrow> jstring list" where
  "row_of d = [date d, name d, phone d, email d]"

text \<open>
  \<open>keeps p m\<close>: running \<open>m\<close> leaves the part \<open>p\<close> of the state as it was.
  \<open>adds K m\<close>: every request that \<open>m\<close> sends satisfies \<open>K\<close>.
\<close>

definition keeps :: "(world \<Rightarrow> 'b) \<Rightarrow> 'a io \<Rightarrow> bool" where
  "keeps p m = (\<forall>w r w'. m w = (r, w') \<longrightarrow> p w' = p w)"

definition adds :: "(call \<Rightarrow> bool) \<Rightarrow> 'a io \<Rightarrow> bool" where
  "adds K m = (\<forall>w r w'. m w = (r, w') \<longrightarrow> (\<exists>cs. calls w' = calls w @ cs \<and> list_all K cs))"

text \<open>
  The parts of \<open>createOrGetSpreadsheet\<close>: what it does after the folder lookup, and
  what it does once it has the folder. \<open>drive_call\<close> holds of the requests of the first
  part, \<open>loop_call\<close> of every request but an export or a send.
\<close>

definition resolve_rest :: "ident option \<Rightarrow> ident io" where
  "resolve_rest folderResponse =
     andThen (case folderResponse of
                Some i \<Rightarrow> ret i
              | None \<Rightarrow> drive_create_folder) (\<lambda>folderId.
     andThen (drive_list_sheets folderId) (\<lambda>spreadsheetResponse.
       (case spreadsheetResponse of
          Some sid \<Rightarrow>
            andThen (spreadsheets_get sid) (\<lambda>_. ret sid)
        | None \<Rightarrow>
            andThen spreadsheets_create (\<lambda>sid.
            andThen (spreadsheets_batchUpdate sid) (\<lambda>_.
            andThen (drive_update sid folderId) (\<lambda>_.
            ret sid))))))"

definition in_folder :: "ident \<Rightarrow> ident io" where
  "in_folder folderId =
     andThen (drive_list_sheets folderId) (\<lambda>spreadsheetResponse.
       (case spreadsheetResponse of
          Some sid \<Rightarrow> andThen (spreadsheets_get sid) (\<lambda>_. ret sid)
        | None \<Rightarrow>
            andThen spreadsheets_create (\<lambda>sid.
            andThen (spreadsheets_batchUpdate sid) (\<lambda>_.
            andThen (drive_update sid folderId) (\<lambda>_.
            ret sid)))))"

definition drive_call :: "call \<Rightarrow> bool" where
  "drive_call c = (c = FilesCreateFolder \<or> (\<exists>f. c = FilesListSheets f) \<or>
     (\<exists>i. c = SpreadsheetsGet i) \<or> c = SpreadsheetsCreate \<or>
     (\<exists>i. c = SpreadsheetsBatchUpdate i) \<or> (\<exists>i f. c = FilesUpdate i f))"

definition loop_call :: "call \<Rightarrow> bool" where
  "loop_call c = (\<not> is_export c \<and> c \<noteq> SendMail)"

section \<open>Example states\<close>

text \<open>
  A sheet that reads a cell made of decimal digits only as a number, and shows it back
  without its leading zeros, and that keeps every other text as it was typed.
\<close>

definition is_digit :: "nat \<Rightarrow> bool" where
  "is_digit c = (48 \<le> c \<and> c \<le> 57)"

definition digits_as_number :: "jstring \<Rightarrow> jstring" where
  "digits_as_number c =
     (if c \<noteq> [] \<and> list_all is_digit c
      then (case dropWhile (\<lambda>x. x = 48) c of [] \<Rightarrow> [48] | x # xs \<Rightarrow> x # xs)
      else c)"

text \<open>
  A mailbox with one unread notification, received on 15 March 2024 at 23:30 UTC, and a
  Drive that already holds the folder and the spreadsheet with its header row.
\<close>

definition signup_body :: jstring where
  \<open>signup_body = js ''<table><tr><td valign="top">Full Name:</td> <td> Jane Doe </td></tr><tr><td valign="top">Phone:</td><td>0712345678</td></tr><tr><td valign="top">Email:</td><td>jane@example.org</td></tr></table>''\<close>

definition signup_message :: message where
  "signup_message = \<lparr>msg_id = 1, subject = js ''Growth Track Signup'', unread = True,
     internalDate = 1710545400000, parts = None, body_data = Some signup_body\<rparr>"

definition base_world :: world where
  "base_world = \<lparr>now = 1710547200000,
     mailbox = [signup_message],
     folders = [(10, folder_name)],
     files = [\<lparr>ss_id = 20, ss_name = sheet_name, ss_parents = [10], ss_rows = [header_row]\<rparr>],
     entered = digits_as_number,
     tempfile = False, calls = [], faults = (\<lambda>n. False)\<rparr>"

text \<open>
  The same notification received on 4 March 2024 at 23:00 UTC, which is 5 March at 01:00
  in Johannesburg.
\<close>

definition early_world :: world where
  "early_world = base_world\<lparr>mailbox := [signup_message\<lparr>internalDate := 1709593200000\<rparr>]\<rparr>"

text \<open>The same mailbox when the notification carries the older subject.\<close>

definition legacy_world :: world where
  "legacy_world =
     base_world\<lparr>mailbox := [signup_message\<lparr>subject := js ''Growth Track Sign Up Form''\<rparr>]\<rparr>"

text \<open>The notification of the first example, still unread thirty days after it came.\<close>

definition stale_world :: world where
  "stale_world = base_world\<lparr>now := 1713137400000\<rparr>"

text \<open>A mailbox with 101 unread notifications, numbered 1 to 101.\<close>

definition crowded_world :: world where
  "crowded_world = base_world\<lparr>mailbox := map (\<lambda>i. signup_message\<lparr>msg_id := i\<rparr>) [1..<102]\<rparr>"

text \<open>
  A notification whose name cell holds only white space, and one without the phone row.
\<close>

definition blank_body :: jstring where
  \<open>blank_body = js ''<table><tr><td valign="top">Full Name:</td><td>   </td></tr><tr><td valign="top">Phone:</td><td>0712345678</td></tr><tr><td valign="top">Email:</td><td>jane@example.org</td></tr></table>''\<close>

definition blank_world :: world where
  "blank_world = base_world\<lparr>mailbox := [signup_message\<lparr>body_data := Some blank_body\<rparr>]\<rparr>"

definition no_phone_body :: jstring where
  \<open>no_phone_body = js ''<table><tr><td valign="top">Full Name:</td> <td> Jane Doe </td></tr><tr><td valign="top">Email:</td><td>jane@example.org</td></tr></table>''\<close>

definition no_phone_world :: world where
  "no_phone_world = base_world\<lparr>mailbox := [signup_message\<lparr>body_data := Some no_phone_body\<rparr>]\<rparr>"

text \<open>
  A notification whose payload carries no body data, and one whose label cells are
  written without the attribute \<open>valign\<close>.
\<close>

definition bodiless_world :: world where
  "bodiless_world = base_world\<lparr>mailbox := [signup_message\<lparr>body_data := None\<rparr>]\<rparr>"

definition plain_body :: jstring where
  \<open>plain_body = js ''<table><tr><td>Full Name:</td><td>Jane Doe</td></tr><tr><td>Phone:</td><td>0712345678</td></tr><tr><td>Email:</td><td>jane@example.org</td></tr></table>''\<close>

definition plain_world :: world where
  "plain_world = base_world\<lparr>mailbox := [signup_message\<lparr>body_data := Some plain_body\<rparr>]\<rparr>"

text \<open>
  Two unread notifications of the same registration, and the same two with the phone
  number written with brackets and a dash; that notification with a store that already
  holds its registration, recorded under another date; and the first example with the
  transport failing at request 13, the export.
\<close>

definition twin_world :: world where
  "twin_world = base_world\<lparr>mailbox := [signup_message, signup_message\<lparr>msg_id := 2\<rparr>]\<rparr>"

definition spaced_body :: jstring where
  \<open>spaced_body = js ''<table><tr><td valign="top">Full Name:</td> <td> Jane Doe </td></tr><tr><td valign="top">Phone:</td><td>(071) 234-5678</td></tr><tr><td valign="top">Email:</td><td>jane@example.org</td></tr></table>''\<close>

definition spaced_twin_world :: world where
  "spaced_twin_world =
     base_world\<lparr>mailbox := [signup_message\<lparr>body_data := Some spaced_body\<rparr>,
                             signup_message\<lparr>msg_id := 2, body_data := Some spaced_body\<rparr>]\<rparr>"

definition seen_world :: world where
  "seen_world = base_world\<lparr>mailbox := [signup_message\<lparr>body_data := Some spaced_body\<rparr>],
     files :=
     [\<lparr>ss_id = 20, ss_name = sheet_name, ss_parents = [10],
       ss_rows = [header_row, [js ''1 January 2024'', js ''Jane Doe'', js ''(071) 234-5678'',
                               js ''jane@example.org'']]\<rparr>]\<rparr>"

definition export_fault_world :: world where
  "export_fault_world = base_world\<lparr>faults := (\<lambda>n. n = 13)\<rparr>"

section \<open>Basic facts\<close>

declare year_from.simps [simp del] month_from.simps [simp del] show_nat.simps [simp del]

lemmas eval_defs = main_def authorize_def request_def queryEmails_def messages_list_def hits_def
  matching_def
  andThen_def ret_def primary_query_def secondary_query_def or_empty_def js_def messages_get_def
  process_message_def extractSignupInfo_def lift_def decode_body_def extract_field_def
  name_pattern_def phone_pattern_def email_pattern_def trim_def is_space_def canonicalize_def
  or_default_def formatDate_def civil_def year_from.simps month_from.simps
  year_length_def is_leap_def month_length_def show_nat.simps month_names_def en_ZA_long_def
  as_stored_def digits_as_number_def is_digit_def
  createOrGetSpreadsheet_def drive_list_folders_def find_folder_def folder_name_def
  drive_list_sheets_def find_sheet_def sheet_name_def spreadsheets_get_def find_file_def
  isDuplicateEntry_def values_get_def cell_def header_row_def saveToGoogleSheets_def
  values_append_def markEmailAsRead_def messages_modify_def sendEmail_def drive_export_def
  writeFile_def unlink_def initial_state_def

lemmas example_defs = base_world_def legacy_world_def stale_world_def crowded_world_def
  blank_world_def no_phone_world_def twin_world_def seen_world_def export_fault_world_def
  signup_message_def signup_body_def blank_body_def no_phone_body_def
  early_world_def bodiless_world_def plain_world_def plain_body_def spaced_twin_world_def
  spaced_body_def

lemma andThen_ret [simp]: "andThen (ret x) f w = f x w"
  by (simp add: andThen_def ret_def)

lemma no_faults_calls [simp]: "no_faults (w\<lparr>calls := cs\<rparr>) = no_faults w"
  by (simp add: no_faults_def)

lemma matching_calls [simp]: "matching q (w\<lparr>calls := cs\<rparr>) = matching q w"
  by (simp add: matching_def)

lemma hits_calls [simp]: "hits q n (w\<lparr>calls := cs\<rparr>) = hits q n w"
  by (simp add: hits_def)

lemma as_stored_calls [simp]: "as_stored (w\<lparr>calls := cs\<rparr>) opt row = as_stored w opt row"
  by (cases opt) (simp_all add: as_stored_def)

section \<open>The scanner\<close>

lemma messages_list_Inr:
  "messages_list q n w = (Inr r, w') \<Longrightarrow>
     or_empty r = hits q n w \<and> w' = w\<lparr>calls := calls w @ [MessagesList q n]\<rparr>"
  by (auto simp: messages_list_def andThen_def request_def or_empty_def split: if_splits)

lemma messages_list_ok:
  "no_faults w \<Longrightarrow>
   \<exists>r. messages_list q n w = (Inr r, w\<lparr>calls := calls w @ [MessagesList q n]\<rparr>)"
  by (auto simp: messages_list_def andThen_def request_def no_faults_def)

lemma messages_get_Inr:
  "messages_get i f w = (Inr m, w') \<Longrightarrow>
     w' = w\<lparr>calls := calls w @ [MessagesGet i f]\<rparr> \<and>
     find (\<lambda>m. msg_id m = i) (mailbox w) = Some m"
  by (auto simp: messages_get_def andThen_def request_def split: if_splits option.splits)

lemma messages_get_ok:
  "no_faults w \<Longrightarrow> i \<in> msg_id ` set (mailbox w) \<Longrightarrow>
   \<exists>m. messages_get i f w = (Inr m, w\<lparr>calls := calls w @ [MessagesGet i f]\<rparr>)"
  by (auto simp: messages_get_def andThen_def request_def no_faults_def find_None_iff
           split: option.splits)

lemma log_subjects_Inr:
  "log_subjects ms w = (Inr u, w') \<Longrightarrow>
     w' = w\<lparr>calls := calls w @ map (\<lambda>i. MessagesGet i Metadata) ms\<rparr>"
proof (induction ms arbitrary: w w')
  case Nil
  then show ?case by (simp add: ret_def)
next
  case (Cons m ms)
  from Cons.prems obtain x w1 where g: "messages_get m Metadata w = (Inr x, w1)"
    and l: "log_subjects ms w1 = (Inr u, w')"
    by (auto simp: andThen_def split: prod.splits sum.splits)
  show ?case using messages_get_Inr[OF g] Cons.IH[OF l] by simp
qed

lemma log_subjects_ok:
  "no_faults w \<Longrightarrow> set ms \<subseteq> msg_id ` set (mailbox w) \<Longrightarrow>
   \<exists>w'. log_subjects ms w = (Inr (), w')"
proof (induction ms arbitrary: w)
  case Nil
  then show ?case by (simp add: ret_def)
next
  case (Cons m ms)
  from Cons.prems obtain x where
    g: "messages_get m Metadata w = (Inr x, w\<lparr>calls := calls w @ [MessagesGet m Metadata]\<rparr>)"
    using messages_get_ok[of w m Metadata] by auto
  have "\<exists>w'. log_subjects ms (w\<lparr>calls := calls w @ [MessagesGet m Metadata]\<rparr>) = (Inr (), w')"
    using Cons.prems by (intro Cons.IH) auto
  then show ?case using g by (auto simp: andThen_def)
qed

lemma hits_subset: "set (hits q n w) \<subseteq> msg_id ` set (mailbox w)"
  by (auto simp: hits_def matching_def dest!: in_set_takeD)

lemma queryEmails_Inr:
  assumes "queryEmails w = (Inr ms, w')"
  shows "ms = (if hits primary_query 100 w = [] then hits secondary_query 100 w
               else hits primary_query 100 w)"
    and "calls w' = calls w @ [MessagesList primary_query 100]
                 @ (if hits primary_query 100 w = [] then [MessagesList secondary_query 100] else [])
                 @ map (\<lambda>i. MessagesGet i Metadata) ms"
  using assms
  by (auto simp: queryEmails_def andThen_def ret_def split: prod.splits sum.splits if_splits
           dest!: messages_list_Inr log_subjects_Inr)

lemma queryEmails_returns:
  assumes nf: "no_faults w"
  shows "\<exists>ms w'. queryEmails w = (Inr ms, w')"
proof -
  let ?w1 = "w\<lparr>calls := calls w @ [MessagesList primary_query 100]\<rparr>"
  let ?w2 = "?w1\<lparr>calls := calls ?w1 @ [MessagesList secondary_query 100]\<rparr>"
  obtain r1 where l1: "messages_list primary_query 100 w = (Inr r1, ?w1)"
    using messages_list_ok[OF nf] by blast
  have h1: "or_empty r1 = hits primary_query 100 w"
    using messages_list_Inr[OF l1] by simp
  have nf1: "no_faults ?w1" using nf by simp
  obtain r2 where l2: "messages_list secondary_query 100 ?w1 = (Inr r2, ?w2)"
    using messages_list_ok[OF nf1] by blast
  have h2: "or_empty r2 = hits secondary_query 100 w"
    using messages_list_Inr[OF l2] by simp
  show ?thesis
  proof (cases "hits primary_query 100 w = []")
    case True
    have "\<exists>w'. log_subjects (hits secondary_query 100 w) ?w2 = (Inr (), w')"
      using nf hits_subset[of secondary_query 100 w] by (intro log_subjects_ok) auto
    then show ?thesis using True l1 l2 h1 h2
      by (auto simp: queryEmails_def andThen_def ret_def)
  next
    case False
    have "\<exists>w'. log_subjects (hits primary_query 100 w) ?w1 = (Inr (), w')"
      using nf hits_subset[of primary_query 100 w] by (intro log_subjects_ok) auto
    then show ?thesis using False l1 h1
      by (auto simp: queryEmails_def andThen_def ret_def)
  qed
qed

text \<open>
  C8. A call of \<open>queryEmails\<close> that returns has returned the hits of the first query
  when there are any, and the hits of the second query otherwise; the requests it has
  sent are the first query, then the second query exactly when the first had no hit,
  then one fetch per message returned. Without transport failure the call returns.
\<close>

theorem queryEmails_priority:
  "(\<forall>ms w'. queryEmails w = (Inr ms, w') \<longrightarrow>
      ms = (if hits primary_query 100 w = [] then hits secondary_query 100 w
            else hits primary_query 100 w) \<and>
      calls w' = calls w @ [MessagesList primary_query 100]
                 @ (if hits primary_query 100 w = [] then [MessagesList secondary_query 100] else [])
                 @ map (\<lambda>i. MessagesGet i Metadata) ms) \<and>
   (no_faults w \<longrightarrow> (\<exists>ms w'. queryEmails w = (Inr ms, w')))"
  using queryEmails_Inr[of w] queryEmails_returns[of w] by blast

theorem queryEmails_priority_witness:
  "no_faults legacy_world \<and> hits primary_query 100 legacy_world = [] \<and>
   (\<exists>w'. queryEmails legacy_world = (Inr [1], w') \<and>
      calls w' = [MessagesList primary_query 100, MessagesList secondary_query 100,
                  MessagesGet 1 Metadata])"
proof -
  have nf: "no_faults legacy_world"
    by (simp add: no_faults_def example_defs)
  have h1: "hits primary_query 100 legacy_world = []"
    by (simp add: hits_def matching_def primary_query_def js_def example_defs)
  have h2: "hits secondary_query 100 legacy_world = [1]"
    by (simp add: hits_def matching_def secondary_query_def js_def example_defs)
  have c: "calls legacy_world = []"
    by (simp add: example_defs)
  from queryEmails_priority[of legacy_world] nf obtain ms w'
    where q: "queryEmails legacy_world = (Inr ms, w')" by blast
  with queryEmails_priority[of legacy_world] h1 h2 c
  have "ms = [1]" and "calls w' = [MessagesList primary_query 100,
      MessagesList secondary_query 100, MessagesGet 1 Metadata]"
    by auto
  with nf h1 q show ?thesis by blast
qed

text \<open>
  C1. In \<open>stale_world\<close> the only message was received thirty days before the run, and
  \<open>queryEmails\<close> returns it: neither query carries the date computed for it.
\<close>

theorem queryEmails_returns_stale_message:
  "fst (queryEmails stale_world) = Inr [1] \<and>
   map internalDate (mailbox stale_world) = [1710545400000] \<and>
   1710545400000 + 30 * 86400000 = now stale_world"
  by (simp add: example_defs queryEmails_def messages_list_def hits_def matching_def andThen_def
      ret_def request_def primary_query_def or_empty_def js_def messages_get_def)

lemma crowded_matching:
  "matching primary_query crowded_world = map (\<lambda>i. signup_message\<lparr>msg_id := i\<rparr>) [1..<102]"
  unfolding matching_def crowded_world_def base_world_def
  by (simp add: filter_id_conv primary_query_def js_def signup_message_def del: upt.simps upt_Suc)

lemma crowded_hits: "hits primary_query 100 crowded_world = [1..<101]"
proof -
  have "take 100 [1..<102] = [1..<(101::nat)]"
    by (simp add: take_upt del: upt.simps upt_Suc)
  then show ?thesis
    by (simp add: hits_def crowded_matching take_map o_def del: upt.simps upt_Suc)
qed

text \<open>
  C9, as stated, fails: of the 101 unread notifications of \<open>crowded_world\<close>, all
  matching the first pattern, \<open>queryEmails\<close> returns the first 100.
\<close>

theorem queryEmails_complete_counterexample:
  "fst (queryEmails crowded_world) = Inr [1..<101] \<and>
   map msg_id (matching primary_query crowded_world) = [1..<102]"
proof -
  have nf: "no_faults crowded_world"
    by (simp add: no_faults_def example_defs)
  from queryEmails_returns[OF nf] obtain ms w'
    where q: "queryEmails crowded_world = (Inr ms, w')" by blast
  have "ms = [1..<101]"
    using queryEmails_Inr(1)[OF q] crowded_hits by (simp del: upt.simps upt_Suc)
  moreover have "map msg_id (matching primary_query crowded_world) = [1..<102]"
    by (simp add: crowded_matching o_def del: upt.simps upt_Suc)
  ultimately show ?thesis using q by simp
qed

text \<open>
  C9, amended. \<open>queryEmails\<close> returns the first page of the query it settles on (the
  second query when the first has no hit): the identifiers of the first 100 unread
  messages that match, in the order of the mailbox, and of all of them when they are at
  most 100.
\<close>

theorem queryEmails_first_page:
  assumes "queryEmails w = (Inr ms, w')"
  shows "ms = map msg_id (take 100 (matching (if matching primary_query w = [] then secondary_query
                                                else primary_query) w)) \<and>
         length ms \<le> 100 \<and>
         (length (matching (if matching primary_query w = [] then secondary_query
                            else primary_query) w) \<le> 100 \<longrightarrow>
          ms = map msg_id (matching (if matching primary_query w = [] then secondary_query
                                     else primary_query) w))"
  using queryEmails_Inr(1)[OF assms] by (auto simp: hits_def)

theorem queryEmails_first_page_witness:
  "queryEmails base_world =
     (Inr [1], base_world\<lparr>calls := [MessagesList primary_query 100, MessagesGet 1 Metadata]\<rparr>) \<and>
   map msg_id (matching primary_query base_world) = [1] \<and>
   length (matching primary_query base_world) \<le> 100"
proof -
  have q: "queryEmails base_world =
     (Inr [1], base_world\<lparr>calls := [MessagesList primary_query 100, MessagesGet 1 Metadata]\<rparr>)"
    by (simp add: example_defs queryEmails_def messages_list_def hits_def matching_def andThen_def
      ret_def request_def primary_query_def or_empty_def js_def messages_get_def)
  have m: "matching primary_query base_world = [signup_message]"
    by (simp add: example_defs matching_def primary_query_def js_def)
  show ?thesis using queryEmails_first_page[OF q] q m
    by simp
qed

section \<open>The patterns match labelled rows\<close>

lemma canonicalize_60 [simp]: "canonicalize c = 60 \<longleftrightarrow> c = 60"
  by (auto simp: canonicalize_def)

lemma canonicalize_60' [simp]: "60 = canonicalize c \<longleftrightarrow> c = 60"
  by (auto simp: canonicalize_def)

lemma canonicalize_lt [simp]: "canonicalize 60 = 60"
  by (simp add: canonicalize_def)

lemma not_space_60 [simp]: "\<not> is_space 60"
  by (simp add: is_space_def)

lemma starts_with_ci_iff:
  "starts_with_ci p s \<longleftrightarrow> length p \<le> length s \<and> ci_eq (take (length p) s) p"
  by (induction p s rule: starts_with_ci.induct) (auto simp: ci_eq_def)

lemma ci_eq_length: "ci_eq a b \<Longrightarrow> length a = length b"
  unfolding ci_eq_def by (metis length_map)

lemma starts_with_ci_append: "ci_eq l p \<Longrightarrow> starts_with_ci p (l @ r)"
  by (simp add: starts_with_ci_iff ci_eq_length)

lemma first_some_all_None: "(\<forall>x \<in> set xs. x = None) \<Longrightarrow> first_some xs = None"
  by (induction xs rule: first_some.induct) auto

lemma first_some_last_only:
  assumes "\<forall>n<N. lo \<le> n \<longrightarrow> f n = None"
  shows "first_some (map f (rev [lo..<Suc N])) = (if lo \<le> N then f N else None)"
proof (cases "lo \<le> N")
  case True
  have "first_some (map f (rev [lo..<N])) = None"
    using assms by (intro first_some_all_None) auto
  then show ?thesis using True by (cases "f N") auto
next
  case False
  then show ?thesis by simp
qed

lemma js_td: "js ''<td>'' = 60 # js ''td>''" by (simp add: js_def)
lemma js_tdc: "js ''</td>'' = 60 # js ''/td>''" by (simp add: js_def)

lemma starts_lt_Cons: "starts_with_ci (60 # p) s \<Longrightarrow> \<exists>t. s = 60 # t"
  by (cases s) auto

lemma drop_in_takeWhile:
  "n < length (takeWhile P s) \<Longrightarrow> \<exists>c t. drop n s = c # t \<and> P c"
proof -
  assume a: "n < length (takeWhile P s)"
  then have n: "n < length s" using length_takeWhile_le[of P s] by (meson le_trans not_le)
  have "P (s ! n)" using a by (metis nth_mem set_takeWhileD takeWhile_nth)
  then show ?thesis using n by (metis Cons_nth_drop_Suc)
qed

lemma rx_match_closing:
  "rx_match [Lit (js ''</td>'')] u cap = (if starts_with_ci (js ''</td>'') u then Some cap else None)"
  by simp

declare rx_match.simps [simp del]

lemma rx_match_group:
  "rx_match [Group1Plus (Except 60), Lit (js ''</td>'')] u cap =
     (if takeWhile (in_class (Except 60)) u \<noteq> [] \<and>
         starts_with_ci (js ''</td>'') (dropWhile (in_class (Except 60)) u)
      then Some (Some (takeWhile (in_class (Except 60)) u)) else None)"
proof -
  define N where "N = length (takeWhile (in_class (Except 60)) u)"
  define f where "f = (\<lambda>n. rx_match [Lit (js ''</td>'')] (drop n u) (Some (take n u)))"
  have none: "\<forall>n<N. 1 \<le> n \<longrightarrow> f n = None"
  proof (intro allI impI)
    fix n assume "n < N" "1 \<le> n"
    then obtain c r where "drop n u = c # r" "in_class (Except 60) c"
      using drop_in_takeWhile[of n "in_class (Except 60)" u] by (auto simp: N_def)
    then show "f n = None" by (simp add: f_def rx_match_closing) (simp add: js_tdc)
  qed
  have tk: "take N u = takeWhile (in_class (Except 60)) u"
    and dr: "drop N u = dropWhile (in_class (Except 60)) u"
    by (simp_all add: N_def takeWhile_eq_take[symmetric] dropWhile_eq_drop[symmetric])
  have "rx_match [Group1Plus (Except 60), Lit (js ''</td>'')] u cap =
        first_some (map f (rev [1..<Suc N]))"
    by (subst rx_match.simps) (simp only: f_def N_def)
  also have "\<dots> = (if 1 \<le> N then f N else None)"
    using first_some_last_only[OF none] .
  also have "\<dots> = (if takeWhile (in_class (Except 60)) u \<noteq> [] then f N else None)"
    by (auto simp: N_def Suc_le_eq)
  finally show ?thesis
    by (simp add: f_def tk dr rx_match_closing)
qed

lemma rx_match_opening:
  "rx_match [Lit (js ''<td>''), Group1Plus (Except 60), Lit (js ''</td>'')] t cap =
     (if starts_with_ci (js ''<td>'') t \<and> takeWhile (in_class (Except 60)) (drop 4 t) \<noteq> [] \<and>
         starts_with_ci (js ''</td>'') (dropWhile (in_class (Except 60)) (drop 4 t))
      then Some (Some (takeWhile (in_class (Except 60)) (drop 4 t))) else None)"
proof -
  have len4: "length (js ''<td>'') = 4" by (simp add: js_def)
  show ?thesis
    by (subst rx_match.simps) (simp add: rx_match_group len4)
qed

lemma rx_match_star:
  "rx_match [Star Space, Lit (js ''<td>''), Group1Plus (Except 60), Lit (js ''</td>'')] s1 cap =
   rx_match [Lit (js ''<td>''), Group1Plus (Except 60), Lit (js ''</td>'')] (dropWhile is_space s1) cap"
proof -
  define M where "M = length (takeWhile (in_class Space) s1)"
  define g where "g = (\<lambda>n. rx_match [Lit (js ''<td>''), Group1Plus (Except 60), Lit (js ''</td>'')] (drop n s1) cap)"
  have none: "\<forall>n<M. 0 \<le> n \<longrightarrow> g n = None"
  proof (intro allI impI)
    fix n assume "n < M"
    then obtain c r where d: "drop n s1 = c # r" "in_class Space c"
      using drop_in_takeWhile[of n "in_class Space" s1] by (auto simp: M_def)
    then have "c \<noteq> 60" by auto
    then show "g n = None" using d unfolding g_def by (subst rx_match.simps) (simp add: js_td)
  qed
  have sp: "in_class Space = is_space" by (rule ext) simp
  have dr: "drop M s1 = dropWhile is_space s1"
    by (simp add: M_def dropWhile_eq_drop[symmetric] sp)
  have "rx_match [Star Space, Lit (js ''<td>''), Group1Plus (Except 60), Lit (js ''</td>'')] s1 cap
        = first_some (map g (rev [0..<Suc M]))"
    by (subst rx_match.simps) (simp only: g_def M_def)
  also have "\<dots> = g M"
    using first_some_last_only[OF none] by simp
  finally show ?thesis by (simp add: g_def dr)
qed

lemma rx_match_cell:
  "rx_match (cell_pattern lab) s cap =
     (if starts_with_ci lab s \<and>
         starts_with_ci (js ''<td>'') (dropWhile is_space (drop (length lab) s)) \<and>
         takeWhile (in_class (Except 60)) (drop 4 (dropWhile is_space (drop (length lab) s))) \<noteq> [] \<and>
         starts_with_ci (js ''</td>'')
           (dropWhile (in_class (Except 60)) (drop 4 (dropWhile is_space (drop (length lab) s))))
      then Some (Some (takeWhile (in_class (Except 60))
                         (drop 4 (dropWhile is_space (drop (length lab) s)))))
      else None)"
  unfolding cell_pattern_def
  by (subst rx_match.simps) (simp add: rx_match_star rx_match_opening)

lemma ci_eq_lt_Cons: "ci_eq x (60 # p) \<Longrightarrow> \<exists>x'. x = 60 # x'"
  by (cases x) (auto simp: ci_eq_def)

lemma dropWhile_all: "list_all P xs \<Longrightarrow> \<not> P y \<Longrightarrow> dropWhile P (xs @ y # ys) = y # ys"
  by (induction xs) auto

lemma takeWhile_all: "list_all P xs \<Longrightarrow> \<not> P y \<Longrightarrow> takeWhile P (xs @ y # ys) = xs"
  by (induction xs) auto

lemma row_at_match:
  assumes "row_at lab s v"
  shows "rx_match (cell_pattern lab) s cap = Some (Some v)"
proof -
  from assms obtain l ws op1 cl1 rest where
    s: "s = l @ ws @ op1 @ v @ cl1 @ rest" and l: "ci_eq l lab"
    and ws: "list_all is_space ws" and o: "ci_eq op1 (js ''<td>'')"
    and v: "v \<noteq> []" "list_all (\<lambda>c. c \<noteq> 60) v" and c: "ci_eq cl1 (js ''</td>'')"
    unfolding row_at_def by blast
  obtain o' where o': "op1 = 60 # o'" using o ci_eq_lt_Cons by (auto simp: js_td)
  obtain c' where c': "cl1 = 60 # c'" using c ci_eq_lt_Cons by (auto simp: js_tdc)
  have len_l: "length l = length lab" using l by (rule ci_eq_length)
  have len_o: "length op1 = 4" using ci_eq_length[OF o] by (simp add: js_def)
  have 1: "starts_with_ci lab s" unfolding s using l by (rule starts_with_ci_append)
  have d1: "drop (length lab) s = ws @ op1 @ v @ cl1 @ rest"
    by (simp add: s len_l[symmetric])
  have d2: "dropWhile is_space (drop (length lab) s) = op1 @ v @ cl1 @ rest"
    unfolding d1 o' using dropWhile_all[OF ws, of 60] by simp
  have 2: "starts_with_ci (js ''<td>'') (dropWhile is_space (drop (length lab) s))"
    unfolding d2 using o by (rule starts_with_ci_append)
  have d3: "drop 4 (dropWhile is_space (drop (length lab) s)) = v @ cl1 @ rest"
    unfolding d2 using len_o by simp
  have v': "list_all (in_class (Except 60)) v" using v(2) by (simp add: list_all_iff)
  have t: "takeWhile (in_class (Except 60)) (v @ cl1 @ rest) = v"
    unfolding c' using takeWhile_all[OF v', of 60] by simp
  have d4: "dropWhile (in_class (Except 60)) (v @ cl1 @ rest) = cl1 @ rest"
    unfolding c' using dropWhile_all[OF v', of 60] by simp
  have 3: "starts_with_ci (js ''</td>'') (cl1 @ rest)"
    using c by (rule starts_with_ci_append)
  show ?thesis
    by (simp add: rx_match_cell 1 2 d3 t d4 3 v(1))
qed

lemma match_row_at:
  assumes "rx_match (cell_pattern lab) s cap = Some c"
  shows "\<exists>v. c = Some v \<and> row_at lab s v"
proof -
  define s1 where "s1 = drop (length lab) s"
  define s2 where "s2 = dropWhile is_space s1"
  define s3 where "s3 = drop 4 s2"
  define v where "v = takeWhile (in_class (Except 60)) s3"
  define s4 where "s4 = dropWhile (in_class (Except 60)) s3"
  from assms have 1: "starts_with_ci lab s" and 2: "starts_with_ci (js ''<td>'') s2"
    and 3: "v \<noteq> []" and 4: "starts_with_ci (js ''</td>'') s4" and c: "c = Some v"
    by (auto simp: rx_match_cell s1_def s2_def s3_def v_def s4_def split: if_splits)
  have len4: "length (js ''<td>'') = 4" and len5: "length (js ''</td>'') = 5"
    by (simp_all add: js_def)
  have a: "s = take (length lab) s @ s1" by (simp add: s1_def)
  have b: "s1 = takeWhile is_space s1 @ s2" by (simp add: s2_def)
  have c2: "s2 = take 4 s2 @ s3" by (simp add: s3_def)
  have d: "s3 = v @ s4" by (simp add: v_def s4_def)
  have e: "s4 = take 5 s4 @ drop 5 s4" by simp
  have "s = take (length lab) s @ takeWhile is_space s1 @ take 4 s2 @ v @ take 5 s4 @ drop 5 s4"
    using a b c2 d e by metis
  moreover have "ci_eq (take (length lab) s) lab" using 1 by (simp add: starts_with_ci_iff)
  moreover have "list_all is_space (takeWhile is_space s1)"
    by (auto simp: list_all_iff dest: set_takeWhileD)
  moreover have "ci_eq (take 4 s2) (js ''<td>'')"
    using 2 unfolding starts_with_ci_iff len4 by simp
  moreover have "list_all (\<lambda>c. c \<noteq> 60) v"
    by (auto simp: v_def list_all_iff dest: set_takeWhileD)
  moreover have "ci_eq (take 5 s4) (js ''</td>'')"
    using 4 unfolding starts_with_ci_iff len5 by simp
  ultimately have "row_at lab s v" using 3 unfolding row_at_def by blast
  then show ?thesis using c by blast
qed

lemma match_None_iff:
  "rx_match (cell_pattern lab) s None = None \<longleftrightarrow> (\<forall>v. \<not> row_at lab s v)"
  using row_at_match[of lab s _ None] match_row_at[of lab s None]
  by (metis not_Some_eq option.distinct(1))

lemma rx_exec_None_iff:
  "rx_exec p s = None \<longleftrightarrow> (\<forall>k\<le>length s. rx_match p (drop k s) None = None)"
proof (induction s)
  case Nil
  then show ?case by simp
next
  case (Cons c cs)
  show ?case
  proof (cases "rx_match p (c # cs) None")
    case None
    have "(\<forall>k\<le>length (c # cs). rx_match p (drop k (c # cs)) None = None) \<longleftrightarrow>
          (\<forall>k\<le>length cs. rx_match p (drop k cs) None = None)" (is "?L \<longleftrightarrow> ?R")
    proof
      assume l: ?L
      show ?R
      proof (intro allI impI)
        fix k assume "k \<le> length cs"
        then have "Suc k \<le> length (c # cs)" by simp
        with l have "rx_match p (drop (Suc k) (c # cs)) None = None" by blast
        then show "rx_match p (drop k cs) None = None" by simp
      qed
    next
      assume r: ?R
      show ?L
      proof (intro allI impI)
        fix k assume "k \<le> length (c # cs)"
        then show "rx_match p (drop k (c # cs)) None = None"
          using None r by (cases k) auto
      qed
    qed
    then show ?thesis using None Cons.IH by simp
  next
    case (Some a)
    then show ?thesis by (auto intro: exI[of _ 0])
  qed
qed

lemma rx_exec_Some_iff:
  "rx_exec p s = Some c \<longleftrightarrow>
     (\<exists>k\<le>length s. rx_match p (drop k s) None = Some c \<and>
                    (\<forall>j<k. rx_match p (drop j s) None = None))"
proof (induction s)
  case Nil
  then show ?case by auto
next
  case (Cons x xs)
  show ?case
  proof (cases "rx_match p (x # xs) None")
    case None
    have "(\<exists>k\<le>length (x # xs). rx_match p (drop k (x # xs)) None = Some c \<and>
                    (\<forall>j<k. rx_match p (drop j (x # xs)) None = None)) \<longleftrightarrow>
          (\<exists>k\<le>length xs. rx_match p (drop k xs) None = Some c \<and>
                    (\<forall>j<k. rx_match p (drop j xs) None = None))" (is "?L \<longleftrightarrow> ?R")
    proof
      assume ?L
      then obtain k where k: "k \<le> length (x # xs)" "rx_match p (drop k (x # xs)) None = Some c"
        "\<forall>j<k. rx_match p (drop j (x # xs)) None = None" by blast
      with None obtain k' where k': "k = Suc k'" by (cases k) auto
      have "\<forall>j<k'. rx_match p (drop j xs) None = None"
      proof (intro allI impI)
        fix j assume "j < k'"
        then have "Suc j < k" using k' by simp
        with k(3) have "rx_match p (drop (Suc j) (x # xs)) None = None" by blast
        then show "rx_match p (drop j xs) None = None" by simp
      qed
      with k k' show ?R by (intro exI[of _ k']) auto
    next
      assume ?R
      then obtain k where k: "k \<le> length xs" "rx_match p (drop k xs) None = Some c"
        "\<forall>j<k. rx_match p (drop j xs) None = None" by blast
      have "\<forall>j<Suc k. rx_match p (drop j (x # xs)) None = None"
      proof (intro allI impI)
        fix j assume "j < Suc k"
        then show "rx_match p (drop j (x # xs)) None = None"
          using None k(3) by (cases j) auto
      qed
      with k show ?L by (intro exI[of _ "Suc k"]) auto
    qed
    then show ?thesis using None Cons.IH by simp
  next
    case (Some a)
    show ?thesis
    proof
      assume "rx_exec p (x # xs) = Some c"
      with Some have "a = c" by simp
      with Some show "\<exists>k\<le>length (x # xs). rx_match p (drop k (x # xs)) None = Some c \<and>
                    (\<forall>j<k. rx_match p (drop j (x # xs)) None = None)"
        by (intro exI[of _ 0]) auto
    next
      assume "\<exists>k\<le>length (x # xs). rx_match p (drop k (x # xs)) None = Some c \<and>
                    (\<forall>j<k. rx_match p (drop j (x # xs)) None = None)"
      then obtain k where k: "rx_match p (drop k (x # xs)) None = Some c"
        "\<forall>j<k. rx_match p (drop j (x # xs)) None = None" by blast
      have "k = 0" using k(2) Some by (cases k) auto
      with k Some show "rx_exec p (x # xs) = Some c" by simp
    qed
  qed
qed

lemma row_at_length: "row_at lab s v \<Longrightarrow> s \<noteq> []"
  by (auto simp: row_at_def)

lemma exec_first_row:
  "rx_exec (cell_pattern lab) body = Some c \<longleftrightarrow> (\<exists>v. c = Some v \<and> first_row lab body v)"
proof
  assume "rx_exec (cell_pattern lab) body = Some c"
  then obtain k where k: "rx_match (cell_pattern lab) (drop k body) None = Some c"
     "\<forall>j<k. rx_match (cell_pattern lab) (drop j body) None = None"
    unfolding rx_exec_Some_iff by blast
  from match_row_at[OF k(1)] obtain v where v: "c = Some v" "row_at lab (drop k body) v" by blast
  have "\<forall>j<k. \<forall>v'. \<not> row_at lab (drop j body) v'"
    using k(2) by (simp add: match_None_iff)
  with v show "\<exists>v. c = Some v \<and> first_row lab body v"
    unfolding first_row_def by blast
next
  assume "\<exists>v. c = Some v \<and> first_row lab body v"
  then obtain v k where v: "c = Some v" "row_at lab (drop k body) v"
    "\<forall>j<k. \<forall>v'. \<not> row_at lab (drop j body) v'"
    unfolding first_row_def by blast
  have kl: "k \<le> length body" using row_at_length[OF v(2)] by simp
  have "rx_match (cell_pattern lab) (drop k body) None = Some c"
    using row_at_match[OF v(2)] v(1) by simp
  moreover have "\<forall>j<k. rx_match (cell_pattern lab) (drop j body) None = None"
    using v(3) by (simp add: match_None_iff)
  ultimately show "rx_exec (cell_pattern lab) body = Some c"
    unfolding rx_exec_Some_iff using kl by blast
qed

lemma exec_no_row:
  "rx_exec (cell_pattern lab) body = None \<longleftrightarrow> \<not> has_row lab body"
proof -
  have "has_row lab body \<longleftrightarrow> (\<exists>k\<le>length body. \<exists>v. row_at lab (drop k body) v)"
    unfolding has_row_def using row_at_length by (metis drop_all nle_le)
  then show ?thesis
    by (simp add: rx_exec_None_iff match_None_iff)
qed

lemma has_row_first: "has_row lab body \<longleftrightarrow> (\<exists>v. first_row lab body v)"
proof -
  have "has_row lab body \<longleftrightarrow> rx_exec (cell_pattern lab) body \<noteq> None"
    by (simp add: exec_no_row)
  also have "\<dots> \<longleftrightarrow> (\<exists>c. rx_exec (cell_pattern lab) body = Some c)" by auto
  also have "\<dots> \<longleftrightarrow> (\<exists>v. first_row lab body v)"
    by (auto simp: exec_first_row)
  finally show ?thesis .
qed

section \<open>The calendar\<close>

lemma year_length_pos: "0 < year_length y" by (simp add: year_length_def)

lemma year_from_correct:
  "year_from y n = (y', r) \<Longrightarrow>
     y \<le> y' \<and> r < year_length y' \<and> n = sum_list (map year_length [y..<y']) + r"
proof (induction y n arbitrary: y' r rule: year_from.induct)
  case (1 y n)
  show ?case
  proof (cases "n < year_length y")
    case True
    with "1.prems" show ?thesis by (simp add: year_from.simps)
  next
    case False
    with "1.prems" have rec: "year_from (Suc y) (n - year_length y) = (y', r)"
      by (simp add: year_from.simps)
    from "1.IH"[OF False rec] have ih: "Suc y \<le> y'" "r < year_length y'"
      "n - year_length y = sum_list (map year_length [Suc y..<y']) + r" by auto
    have "[y..<y'] = y # [Suc y..<y']" using ih(1) by (simp add: upt_conv_Cons)
    with ih False show ?thesis by simp
  qed
qed

lemma months_of_year: "sum_list (map (month_length y) [1..<13]) = year_length y"
proof -
  have "[1..<13] = [1, 2, 3, 4, 5, 6, 7, 8, 9, 10, 11, 12::nat]"
    by (simp add: upt_conv_Cons)
  then show ?thesis by (simp add: month_length_def year_length_def)
qed

lemma month_from_correct:
  "month_from y m n = (m', r) \<Longrightarrow> 1 \<le> m \<Longrightarrow> m \<le> 12 \<Longrightarrow>
   n < sum_list (map (month_length y) [m..<13]) \<Longrightarrow>
     m \<le> m' \<and> m' \<le> 12 \<and> r < month_length y m' \<and>
     n = sum_list (map (month_length y) [m..<m']) + r"
proof (induction y m n arbitrary: m' r rule: month_from.induct)
  case (1 y m n)
  have split: "[m..<13] = m # [Suc m..<13]" using "1.prems"(3) by (simp add: upt_conv_Cons)
  show ?case
  proof (cases "n < month_length y m")
    case True
    with "1.prems" show ?thesis by (simp add: month_from.simps)
  next
    case False
    have m11: "m \<le> 11"
    proof (rule ccontr)
      assume "\<not> m \<le> 11"
      with "1.prems"(3) have "m = 12" by simp
      with "1.prems"(4) False show False by (simp add: upt_conv_Cons)
    qed
    then have c: "\<not> (12 \<le> m \<or> n < month_length y m)" using False by simp
    with "1.prems" have rec: "month_from y (Suc m) (n - month_length y m) = (m', r)"
      by (simp add: month_from.simps)
    have fits: "n - month_length y m < sum_list (map (month_length y) [Suc m..<13])"
      using "1.prems"(4) False unfolding split by simp
    from "1.IH"[OF c rec _ _ fits] m11
    have ih: "Suc m \<le> m'" "m' \<le> 12" "r < month_length y m'"
      "n - month_length y m = sum_list (map (month_length y) [Suc m..<m']) + r" by auto
    have "[m..<m'] = m # [Suc m..<m']" using ih(1) by (simp add: upt_conv_Cons)
    with ih False show ?thesis by simp
  qed
qed

lemma civil_correct:
  "\<exists>y m d. civil n = (y, m, d) \<and> 1970 \<le> y \<and> 1 \<le> m \<and> m \<le> 12 \<and> 1 \<le> d \<and>
     d \<le> month_length y m \<and> day_number (y, m, d) = n"
proof -
  obtain y doy where yf: "year_from 1970 n = (y, doy)" by (cases "year_from 1970 n")
  obtain m r where mf: "month_from y 1 doy = (m, r)" by (cases "month_from y 1 doy")
  from year_from_correct[OF yf] have y: "1970 \<le> y" "doy < year_length y"
    "n = sum_list (map year_length [1970..<y]) + doy" by auto
  have fits: "doy < sum_list (map (month_length y) [1..<13])"
    using y(2) by (simp only: months_of_year)
  from month_from_correct[OF mf _ _ fits] have m: "1 \<le> m" "m \<le> 12" "r < month_length y m"
    "doy = sum_list (map (month_length y) [1..<m]) + r"
    by auto
  have "civil n = (y, m, Suc r)" unfolding civil_def yf using mf by simp
  with y m show ?thesis by (simp add: day_number_def)
qed

lemma show_nat_nonempty: "show_nat n \<noteq> []"
  by (subst show_nat.simps) simp

lemma formatDate_nonempty: "formatDate t \<noteq> []"
  by (simp add: formatDate_def en_ZA_long_def js_def show_nat_nonempty split: prod.splits)

section \<open>The extractor\<close>

lemma name_pattern_cell: "name_pattern = cell_pattern name_label"
  by (simp add: name_pattern_def cell_pattern_def name_label_def)

lemma phone_pattern_cell: "phone_pattern = cell_pattern phone_label"
  by (simp add: phone_pattern_def cell_pattern_def phone_label_def)

lemma email_pattern_cell: "email_pattern = cell_pattern email_label"
  by (simp add: email_pattern_def cell_pattern_def email_label_def)

lemma extract_field_first_row:
  "first_row lab body v \<Longrightarrow> extract_field (cell_pattern lab) body = Inr (trim v)"
  using exec_first_row[of lab body "Some v"] by (simp add: extract_field_def)

lemma extract_field_no_row:
  "\<not> has_row lab body \<Longrightarrow> extract_field (cell_pattern lab) body = Inr []"
  using exec_no_row[of lab body] by (simp add: extract_field_def)

lemma extract_field_total: "\<exists>x. extract_field (cell_pattern lab) body = Inr x"
proof (cases "rx_exec (cell_pattern lab) body")
  case None
  then show ?thesis by (simp add: extract_field_def)
next
  case (Some c)
  then obtain v where "c = Some v" using exec_first_row[of lab body c] by blast
  with Some show ?thesis by (simp add: extract_field_def)
qed

lemma sentinel_nonempty: "or_default x (js ''Not provided'') \<noteq> []"
  by (simp add: or_default_def js_def)

lemma extractSignupInfo_eq:
  assumes "messages_get i Full w = (Inr m, w1)" and "decode_body m = Inr body"
    and "extract_field name_pattern body = Inr xn"
    and "extract_field phone_pattern body = Inr xp"
    and "extract_field email_pattern body = Inr xe"
  shows "extractSignupInfo i w =
     (Inr \<lparr>date = formatDate (internalDate m),
           name = or_default xn (js ''Not provided''),
           phone = or_default xp (js ''Not provided''),
           email = or_default xe (js ''Not provided'')\<rparr>, w1)"
  using assms by (simp add: extractSignupInfo_def andThen_def lift_def ret_def)

lemma extractSignupInfo_undecoded:
  assumes "messages_get i Full w = (Inr m, w1)" and "decode_body m = Inl e"
  shows "extractSignupInfo i w = (Inl e, w1)"
  using assms by (simp add: extractSignupInfo_def andThen_def lift_def)

lemma decode_body_error: "decode_body m = Inl e \<Longrightarrow> e = TypeError"
  by (auto simp: decode_body_def split: option.splits list.splits)

lemma extractSignupInfo_Inr:
  assumes "extractSignupInfo i w = (Inr r, w2)"
  shows "\<exists>m body. messages_get i Full w = (Inr m, w2) \<and> decode_body m = Inr body"
  using assms
  by (auto simp: extractSignupInfo_def andThen_def lift_def ret_def split: prod.splits sum.splits)

text \<open>
  C5, amended. A row, for the extractor, is a label cell written as the pattern has it,
  \<open><td valign="top">Full Name:</td>\<close> (or \<open>Phone:\<close>, or \<open>Email:\<close>), then any white
  space, then a value cell \<open><td>v</td>\<close> whose content \<open>v\<close> is not empty and holds
  no \<open><\<close>, letter case apart. When the body holds such a row for each of the three
  labels, the name, phone and email of the record are the contents of the value cells
  of the first row of each label, stripped of surrounding white space; a content that
  is white space only gives the sentinel.
\<close>

theorem extractSignupInfo_rows:
  assumes "messages_get i Full w = (Inr m, w1)" and "decode_body m = Inr body"
    and "first_row name_label body v1" and "first_row phone_label body v2"
    and "first_row email_label body v3"
  shows "\<exists>r. extractSignupInfo i w = (Inr r, w1) \<and>
           name r = (if trim v1 = [] then js ''Not provided'' else trim v1) \<and>
           phone r = (if trim v2 = [] then js ''Not provided'' else trim v2) \<and>
           email r = (if trim v3 = [] then js ''Not provided'' else trim v3)"
proof -
  have "extract_field name_pattern body = Inr (trim v1)"
    "extract_field phone_pattern body = Inr (trim v2)"
    "extract_field email_pattern body = Inr (trim v3)"
    using assms(3-5)
    by (simp_all add: name_pattern_cell phone_pattern_cell email_pattern_cell extract_field_first_row)
  from extractSignupInfo_eq[OF assms(1,2) this] show ?thesis
    by (simp add: or_default_def)
qed

text \<open>
  C6, amended. For a message that is fetched: when its payload carries the body data,
  \<open>extractSignupInfo\<close> returns a record, whatever rows the body holds: a field whose
  row is absent is the sentinel, a field whose row is present is decided by that row
  alone, and none of the four fields is empty. When the body data are missing it
  throws a TypeError, although the transport has not failed.
\<close>

theorem extractSignupInfo_total:
  assumes "messages_get i Full w = (Inr m, w1)"
  shows "(\<forall>body. decode_body m = Inr body \<longrightarrow>
           (\<exists>r. extractSignupInfo i w = (Inr r, w1) \<and>
              (\<not> has_row name_label body \<longrightarrow> name r = js ''Not provided'') \<and>
              (\<not> has_row phone_label body \<longrightarrow> phone r = js ''Not provided'') \<and>
              (\<not> has_row email_label body \<longrightarrow> email r = js ''Not provided'') \<and>
              (\<forall>v. first_row name_label body v \<longrightarrow>
                     name r = (if trim v = [] then js ''Not provided'' else trim v)) \<and>
              (\<forall>v. first_row phone_label body v \<longrightarrow>
                     phone r = (if trim v = [] then js ''Not provided'' else trim v)) \<and>
              (\<forall>v. first_row email_label body v \<longrightarrow>
                     email r = (if trim v = [] then js ''Not provided'' else trim v)) \<and>
              date r \<noteq> [] \<and> name r \<noteq> [] \<and> phone r \<noteq> [] \<and> email r \<noteq> [])) \<and>
         (\<forall>e. decode_body m = Inl e \<longrightarrow>
           e = TypeError \<and> extractSignupInfo i w = (Inl TypeError, w1))"
proof (intro conjI allI impI)
  fix body assume b: "decode_body m = Inr body"
  obtain xn xp xe where x: "extract_field name_pattern body = Inr xn"
    "extract_field phone_pattern body = Inr xp" "extract_field email_pattern body = Inr xe"
    using extract_field_total
    unfolding name_pattern_cell phone_pattern_cell email_pattern_cell by metis
  let ?r = "\<lparr>date = formatDate (internalDate m),
           name = or_default xn (js ''Not provided''),
           phone = or_default xp (js ''Not provided''),
           email = or_default xe (js ''Not provided'')\<rparr>"
  have e: "extractSignupInfo i w = (Inr ?r, w1)"
    by (rule extractSignupInfo_eq[OF assms b x])
  have n1: "\<not> has_row name_label body \<longrightarrow> name ?r = js ''Not provided''"
    using x(1) by (auto simp: name_pattern_cell extract_field_no_row or_default_def)
  have n2: "\<not> has_row phone_label body \<longrightarrow> phone ?r = js ''Not provided''"
    using x(2) by (auto simp: phone_pattern_cell extract_field_no_row or_default_def)
  have n3: "\<not> has_row email_label body \<longrightarrow> email ?r = js ''Not provided''"
    using x(3) by (auto simp: email_pattern_cell extract_field_no_row or_default_def)
  have f1: "\<forall>v. first_row name_label body v \<longrightarrow>
                  name ?r = (if trim v = [] then js ''Not provided'' else trim v)"
    using x(1) by (auto simp: name_pattern_cell extract_field_first_row or_default_def)
  have f2: "\<forall>v. first_row phone_label body v \<longrightarrow>
                  phone ?r = (if trim v = [] then js ''Not provided'' else trim v)"
    using x(2) by (auto simp: phone_pattern_cell extract_field_first_row or_default_def)
  have f3: "\<forall>v. first_row email_label body v \<longrightarrow>
                  email ?r = (if trim v = [] then js ''Not provided'' else trim v)"
    using x(3) by (auto simp: email_pattern_cell extract_field_first_row or_default_def)
  have ne: "date ?r \<noteq> []" "name ?r \<noteq> []" "phone ?r \<noteq> []" "email ?r \<noteq> []"
    by (simp_all add: formatDate_nonempty sentinel_nonempty)
  show "\<exists>r. extractSignupInfo i w = (Inr r, w1) \<and>
              (\<not> has_row name_label body \<longrightarrow> name r = js ''Not provided'') \<and>
              (\<not> has_row phone_label body \<longrightarrow> phone r = js ''Not provided'') \<and>
              (\<not> has_row email_label body \<longrightarrow> email r = js ''Not provided'') \<and>
              (\<forall>v. first_row name_label body v \<longrightarrow>
                     name r = (if trim v = [] then js ''Not provided'' else trim v)) \<and>
              (\<forall>v. first_row phone_label body v \<longrightarrow>
                     phone r = (if trim v = [] then js ''Not provided'' else trim v)) \<and>
              (\<forall>v. first_row email_label body v \<longrightarrow>
                     email r = (if trim v = [] then js ''Not provided'' else trim v)) \<and>
              date r \<noteq> [] \<and> name r \<noteq> [] \<and> phone r \<noteq> [] \<and> email r \<noteq> []"
    using e n1 n2 n3 f1 f2 f3 ne by blast
next
  fix e assume d: "decode_body m = Inl e"
  then show "e = TypeError" by (rule decode_body_error)
  with extractSignupInfo_undecoded[OF assms d]
  show "extractSignupInfo i w = (Inl TypeError, w1)" by simp
qed

text \<open>
  C3, amended. The date of the record is the civil date, two hours ahead of UTC, of the
  message's \<open>internalDate\<close>, and the body has no part in it. It reads day, month
  name, year: the day of the month without padding, a space, the long English name of
  the month, a space, the year.
\<close>

theorem extractSignupInfo_date:
  assumes "messages_get i Full w = (Inr m, w1)" and "extractSignupInfo i w = (Inr r, w2)"
    and "internalDate m \<le> 8640000000000000"
  shows "\<exists>y mo d. 1970 \<le> y \<and> 1 \<le> mo \<and> mo \<le> 12 \<and> 1 \<le> d \<and> d \<le> month_length y mo \<and>
           day_number (y, mo, d) = (internalDate m + 7200000) div 86400000 \<and>
           date r = show_nat d @ js '' '' @ month_names ! (mo - 1) @ js '' '' @ show_nat y"
proof -
  from extractSignupInfo_Inr[OF assms(2)] assms(1) obtain body where
    b: "decode_body m = Inr body" and w: "w2 = w1" by auto
  obtain xn xp xe where x: "extract_field name_pattern body = Inr xn"
    "extract_field phone_pattern body = Inr xp" "extract_field email_pattern body = Inr xe"
    using extract_field_total
    unfolding name_pattern_cell phone_pattern_cell email_pattern_cell by metis
  from extractSignupInfo_eq[OF assms(1) b x] assms(2)
  have d: "date r = formatDate (internalDate m)" by auto
  obtain y mo dd where c: "civil ((internalDate m + 7200000) div 86400000) = (y, mo, dd)"
    "1970 \<le> y" "1 \<le> mo" "mo \<le> 12" "1 \<le> dd" "dd \<le> month_length y mo"
    "day_number (y, mo, dd) = (internalDate m + 7200000) div 86400000"
    using civil_correct[of "(internalDate m + 7200000) div 86400000"] by blast
  have "date r = show_nat dd @ js '' '' @ month_names ! (mo - 1) @ js '' '' @ show_nat y"
    using d assms(3) c(1) by (simp add: formatDate_def en_ZA_long_def)
  with c show ?thesis by blast
qed

section \<open>The extractor on the example states\<close>

lemmas rx_defs = cell_pattern_def rx_match.simps name_label_def phone_label_def email_label_def

lemma extract_base:
  "extractSignupInfo 1 base_world =
     (Inr \<lparr>date = js ''16 March 2024'', name = js ''Jane Doe'', phone = js ''0712345678'',
           email = js ''jane@example.org''\<rparr>, base_world\<lparr>calls := [MessagesGet 1 Full]\<rparr>)"
  by (simp add: example_defs eval_defs rx_defs)

lemma extract_blank:
  "extractSignupInfo 1 blank_world =
     (Inr \<lparr>date = js ''16 March 2024'', name = js ''Not provided'', phone = js ''0712345678'',
           email = js ''jane@example.org''\<rparr>, blank_world\<lparr>calls := [MessagesGet 1 Full]\<rparr>)"
  by (simp add: example_defs eval_defs rx_defs)

lemma extract_no_phone:
  "extractSignupInfo 1 no_phone_world =
     (Inr \<lparr>date = js ''16 March 2024'', name = js ''Jane Doe'', phone = js ''Not provided'',
           email = js ''jane@example.org''\<rparr>, no_phone_world\<lparr>calls := [MessagesGet 1 Full]\<rparr>)"
  by (simp add: example_defs eval_defs rx_defs)

lemma extract_early:
  "extractSignupInfo 1 early_world =
     (Inr \<lparr>date = js ''5 March 2024'', name = js ''Jane Doe'', phone = js ''0712345678'',
           email = js ''jane@example.org''\<rparr>, early_world\<lparr>calls := [MessagesGet 1 Full]\<rparr>)"
  by (simp add: example_defs eval_defs rx_defs)

lemma extract_bodiless:
  "extractSignupInfo 1 bodiless_world = (Inl TypeError, bodiless_world\<lparr>calls := [MessagesGet 1 Full]\<rparr>)"
  by (simp add: example_defs eval_defs rx_defs)

text \<open>
  Rows whose label cells lack the attribute are no rows for the patterns: the three
  fields are the sentinel.
\<close>

lemma extract_plain:
  "extractSignupInfo 1 plain_world =
     (Inr \<lparr>date = js ''16 March 2024'', name = js ''Not provided'', phone = js ''Not provided'',
           email = js ''Not provided''\<rparr>, plain_world\<lparr>calls := [MessagesGet 1 Full]\<rparr>)"
  by (simp add: example_defs eval_defs rx_defs)

lemma rows_base:
  "first_row name_label signup_body (js '' Jane Doe '')"
  "first_row phone_label signup_body (js ''0712345678'')"
  "first_row email_label signup_body (js ''jane@example.org'')"
proof -
  have "rx_exec (cell_pattern name_label) signup_body = Some (Some (js '' Jane Doe ''))"
    by (simp add: example_defs eval_defs rx_defs)
  then show "first_row name_label signup_body (js '' Jane Doe '')"
    by (simp add: exec_first_row)
  have "rx_exec (cell_pattern phone_label) signup_body = Some (Some (js ''0712345678''))"
    by (simp add: example_defs eval_defs rx_defs)
  then show "first_row phone_label signup_body (js ''0712345678'')"
    by (simp add: exec_first_row)
  have "rx_exec (cell_pattern email_label) signup_body = Some (Some (js ''jane@example.org''))"
    by (simp add: example_defs eval_defs rx_defs)
  then show "first_row email_label signup_body (js ''jane@example.org'')"
    by (simp add: exec_first_row)
qed

lemma no_phone_row: "\<not> has_row phone_label no_phone_body"
proof -
  have "rx_exec (cell_pattern phone_label) no_phone_body = None"
    by (simp add: example_defs eval_defs rx_defs)
  then show ?thesis by (simp add: exec_no_row)
qed

lemma get_base:
  "messages_get 1 Full base_world = (Inr signup_message, base_world\<lparr>calls := [MessagesGet 1 Full]\<rparr>)"
  by (simp add: example_defs messages_get_def andThen_def request_def)

text \<open>
  C5, as stated, fails: the name cell of \<open>blank_body\<close> holds three spaces, which
  stripped is the empty string, and the name of the record is the sentinel.
\<close>

theorem extractSignupInfo_rows_counterexample:
  "first_row name_label blank_body (js ''   '') \<and>
   first_row phone_label blank_body (js ''0712345678'') \<and>
   first_row email_label blank_body (js ''jane@example.org'') \<and>
   trim (js ''   '') = [] \<and>
   map_sum id name (fst (extractSignupInfo 1 blank_world)) = Inr (js ''Not provided'')"
proof -
  have "rx_exec (cell_pattern name_label) blank_body = Some (Some (js ''   ''))"
    by (simp add: example_defs eval_defs rx_defs)
  then have 1: "first_row name_label blank_body (js ''   '')"
    by (simp add: exec_first_row)
  have "rx_exec (cell_pattern phone_label) blank_body = Some (Some (js ''0712345678''))"
    by (simp add: example_defs eval_defs rx_defs)
  then have 2: "first_row phone_label blank_body (js ''0712345678'')"
    by (simp add: exec_first_row)
  have "rx_exec (cell_pattern email_label) blank_body = Some (Some (js ''jane@example.org''))"
    by (simp add: example_defs eval_defs rx_defs)
  then have 3: "first_row email_label blank_body (js ''jane@example.org'')"
    by (simp add: exec_first_row)
  have 4: "trim (js ''   '') = []"
    by (simp add: trim_def is_space_def js_def)
  show ?thesis using 1 2 3 4 extract_blank by simp
qed

theorem extractSignupInfo_rows_witness:
  "messages_get 1 Full base_world = (Inr signup_message, base_world\<lparr>calls := [MessagesGet 1 Full]\<rparr>) \<and>
   decode_body signup_message = Inr signup_body \<and>
   first_row name_label signup_body (js '' Jane Doe '') \<and>
   first_row phone_label signup_body (js ''0712345678'') \<and>
   first_row email_label signup_body (js ''jane@example.org'') \<and>
   (\<exists>r. extractSignupInfo 1 base_world = (Inr r, base_world\<lparr>calls := [MessagesGet 1 Full]\<rparr>) \<and>
        name r = js ''Jane Doe'' \<and> phone r = js ''0712345678'' \<and>
        email r = js ''jane@example.org'')"
proof -
  have d: "decode_body signup_message = Inr signup_body"
    by (simp add: decode_body_def signup_message_def)
  have t: "trim (js '' Jane Doe '') = js ''Jane Doe''" "trim (js ''0712345678'') = js ''0712345678''"
    "trim (js ''jane@example.org'') = js ''jane@example.org''"
    by (simp_all add: trim_def is_space_def js_def)
  from extractSignupInfo_rows[OF get_base d rows_base] t
  have "\<exists>r. extractSignupInfo 1 base_world = (Inr r, base_world\<lparr>calls := [MessagesGet 1 Full]\<rparr>) \<and>
        name r = js ''Jane Doe'' \<and> phone r = js ''0712345678'' \<and>
        email r = js ''jane@example.org''"
    by (simp add: js_def)
  then show ?thesis using get_base d rows_base by blast
qed

theorem extractSignupInfo_total_witness:
  "messages_get 1 Full no_phone_world =
     (Inr (signup_message\<lparr>body_data := Some no_phone_body\<rparr>),
      no_phone_world\<lparr>calls := [MessagesGet 1 Full]\<rparr>) \<and>
   decode_body (signup_message\<lparr>body_data := Some no_phone_body\<rparr>) = Inr no_phone_body \<and>
   \<not> has_row phone_label no_phone_body \<and>
   (\<exists>r. extractSignupInfo 1 no_phone_world = (Inr r, no_phone_world\<lparr>calls := [MessagesGet 1 Full]\<rparr>) \<and>
        phone r = js ''Not provided'' \<and> name r = js ''Jane Doe'' \<and>
        email r = js ''jane@example.org'' \<and> date r \<noteq> []) \<and>
   messages_get 1 Full bodiless_world =
     (Inr (signup_message\<lparr>body_data := None\<rparr>), bodiless_world\<lparr>calls := [MessagesGet 1 Full]\<rparr>) \<and>
   decode_body (signup_message\<lparr>body_data := None\<rparr>) = Inl TypeError \<and>
   extractSignupInfo 1 bodiless_world = (Inl TypeError, bodiless_world\<lparr>calls := [MessagesGet 1 Full]\<rparr>)"
proof -
  have g: "messages_get 1 Full no_phone_world =
     (Inr (signup_message\<lparr>body_data := Some no_phone_body\<rparr>),
      no_phone_world\<lparr>calls := [MessagesGet 1 Full]\<rparr>)"
    by (simp add: no_phone_world_def base_world_def signup_message_def messages_get_def
        andThen_def request_def)
  have d: "decode_body (signup_message\<lparr>body_data := Some no_phone_body\<rparr>) = Inr no_phone_body"
    by (simp add: decode_body_def signup_message_def)
  have g': "messages_get 1 Full bodiless_world =
     (Inr (signup_message\<lparr>body_data := None\<rparr>), bodiless_world\<lparr>calls := [MessagesGet 1 Full]\<rparr>)"
    by (simp add: bodiless_world_def base_world_def signup_message_def messages_get_def
        andThen_def request_def)
  have d': "decode_body (signup_message\<lparr>body_data := None\<rparr>) = Inl TypeError"
    by (simp add: decode_body_def signup_message_def)
  from extractSignupInfo_total[OF g] d no_phone_row extract_no_phone
  have 1: "\<exists>r. extractSignupInfo 1 no_phone_world = (Inr r, no_phone_world\<lparr>calls := [MessagesGet 1 Full]\<rparr>) \<and>
        phone r = js ''Not provided'' \<and> name r = js ''Jane Doe'' \<and>
        email r = js ''jane@example.org'' \<and> date r \<noteq> []"
    by auto
  from extractSignupInfo_total[OF g'] d'
  have 2: "extractSignupInfo 1 bodiless_world =
     (Inl TypeError, bodiless_world\<lparr>calls := [MessagesGet 1 Full]\<rparr>)"
    by blast
  show ?thesis using g d no_phone_row 1 g' d' 2 by blast
qed

text \<open>
  C6, as stated, fails: the message of \<open>bodiless_world\<close> is fetched without any
  transport failure, its payload carries no body data, and \<open>extractSignupInfo\<close>
  throws.
\<close>

theorem extractSignupInfo_total_counterexample:
  "no_faults bodiless_world \<and>
   fst (messages_get 1 Full bodiless_world) = Inr (signup_message\<lparr>body_data := None\<rparr>) \<and>
   fst (extractSignupInfo 1 bodiless_world) = Inl TypeError"
proof -
  have "no_faults bodiless_world"
    by (simp add: no_faults_def bodiless_world_def base_world_def)
  moreover have "fst (messages_get 1 Full bodiless_world) = Inr (signup_message\<lparr>body_data := None\<rparr>)"
    by (simp add: bodiless_world_def base_world_def signup_message_def messages_get_def
        andThen_def request_def)
  ultimately show ?thesis using extract_bodiless by simp
qed

text \<open>
  C3, as stated, fails: the message of \<open>base_world\<close> was received on 15 March 2024 at
  23:30 UTC, and its date reads 16 March 2024, the day first and no comma.
\<close>

theorem extractSignupInfo_date_counterexample:
  "map_sum id date (fst (extractSignupInfo 1 base_world)) = Inr (js ''16 March 2024'') \<and>
   js ''16 March 2024'' \<noteq> js ''March 16, 2024''"
  using extract_base by (simp add: js_def)

theorem extractSignupInfo_date_witness:
  "messages_get 1 Full early_world =
     (Inr (signup_message\<lparr>internalDate := 1709593200000\<rparr>),
      early_world\<lparr>calls := [MessagesGet 1 Full]\<rparr>) \<and>
   internalDate (signup_message\<lparr>internalDate := 1709593200000\<rparr>) \<le> 8640000000000000 \<and>
   (1709593200000 + 7200000) div 86400000 = (19787::nat) \<and>
   (\<exists>r y mo d. extractSignupInfo 1 early_world = (Inr r, early_world\<lparr>calls := [MessagesGet 1 Full]\<rparr>) \<and>
      day_number (y, mo, d) = 19787 \<and>
      date r = show_nat d @ js '' '' @ month_names ! (mo - 1) @ js '' '' @ show_nat y \<and>
      date r = js ''5 March 2024'')"
proof -
  have g: "messages_get 1 Full early_world =
     (Inr (signup_message\<lparr>internalDate := 1709593200000\<rparr>),
      early_world\<lparr>calls := [MessagesGet 1 Full]\<rparr>)"
    by (simp add: early_world_def base_world_def signup_message_def messages_get_def
        andThen_def request_def)
  have v: "internalDate (signup_message\<lparr>internalDate := 1709593200000\<rparr>) \<le> 8640000000000000"
    by simp
  have n: "(1709593200000 + 7200000) div 86400000 = (19787::nat)"
    by simp
  from extractSignupInfo_date[OF g extract_early v] n
  have "\<exists>y mo d. day_number (y, mo, d) = 19787 \<and>
      date \<lparr>date = js ''5 March 2024'', name = js ''Jane Doe'', phone = js ''0712345678'',
           email = js ''jane@example.org''\<rparr> =
        show_nat d @ js '' '' @ month_names ! (mo - 1) @ js '' '' @ show_nat y"
    by auto
  then show ?thesis using g v n extract_early by auto
qed

section \<open>Frames\<close>

lemma keepsD: "keeps p m \<Longrightarrow> m w = (r, w') \<Longrightarrow> p w' = p w"
  by (auto simp: keeps_def)

lemma keeps_ret: "keeps p (ret x)"
  by (simp add: keeps_def ret_def)

lemma keeps_lift: "keeps p (lift r)"
  by (simp add: keeps_def lift_def)

lemma keeps_andThen: "keeps p m \<Longrightarrow> (\<And>x. keeps p (f x)) \<Longrightarrow> keeps p (andThen m f)"
  unfolding keeps_def andThen_def
  by (auto split: prod.splits sum.splits)

lemma keeps_request: "(\<And>w cs. p (w\<lparr>calls := cs\<rparr>) = p w) \<Longrightarrow> keeps p (request c)"
  by (auto simp: keeps_def request_def split: if_splits)

lemma keeps_read:
  assumes "\<And>w cs. p (w\<lparr>calls := cs\<rparr>) = p w"
  shows "keeps p (andThen (request c) (\<lambda>_ w. (f w, w)))"
  using assms by (auto simp: keeps_def andThen_def request_def split: if_splits)

lemma addsD: "adds K m \<Longrightarrow> m w = (r, w') \<Longrightarrow> \<exists>cs. calls w' = calls w @ cs \<and> list_all K cs"
  by (auto simp: adds_def)

lemma adds_ret: "adds K (ret x)"
  by (simp add: adds_def ret_def)

lemma adds_lift: "adds K (lift r)"
  by (simp add: adds_def lift_def)

lemma adds_request: "K c \<Longrightarrow> adds K (request c)"
  by (auto simp: adds_def request_def split: if_splits)

lemma adds_andThen: "adds K m \<Longrightarrow> (\<And>x. adds K (f x)) \<Longrightarrow> adds K (andThen m f)"
proof -
  assume m: "adds K m" and f: "\<And>x. adds K (f x)"
  show ?thesis
    unfolding adds_def
  proof (intro allI impI)
    fix w r w' assume a: "andThen m f w = (r, w')"
    obtain r1 w1 where m1: "m w = (r1, w1)" by (cases "m w")
    from addsD[OF m m1] obtain cs1 where c1: "calls w1 = calls w @ cs1" "list_all K cs1" by blast
    show "\<exists>cs. calls w' = calls w @ cs \<and> list_all K cs"
    proof (cases r1)
      case (Inl e)
      with a m1 have "w' = w1" by (simp add: andThen_def)
      with c1 show ?thesis by blast
    next
      case (Inr x)
      with a m1 have "f x w1 = (r, w')" by (simp add: andThen_def)
      from addsD[OF f this] obtain cs2 where "calls w' = calls w1 @ cs2" "list_all K cs2" by blast
      with c1 show ?thesis by (intro exI[of _ "cs1 @ cs2"]) simp
    qed
  qed
qed

lemma adds_pure: "adds K (\<lambda>w. (f w, w))"
  by (simp add: adds_def)

lemma adds_state: "(\<And>w r w'. m w = (r, w') \<Longrightarrow> calls w' = calls w) \<Longrightarrow> adds K m"
  unfolding adds_def by (intro allI impI exI[of _ "[]"]) simp

subsection \<open>Gmail\<close>

lemma keeps_messages_list:
  "(\<And>w cs. p (w\<lparr>calls := cs\<rparr>) = p w) \<Longrightarrow> keeps p (messages_list q n)"
  unfolding messages_list_def by (rule keeps_read)

lemma keeps_messages_get:
  "(\<And>w cs. p (w\<lparr>calls := cs\<rparr>) = p w) \<Longrightarrow> keeps p (messages_get i f)"
  by (auto simp: keeps_def messages_get_def andThen_def request_def split: if_splits option.splits)


lemma keeps_log_subjects:
  "(\<And>w cs. p (w\<lparr>calls := cs\<rparr>) = p w) \<Longrightarrow> keeps p (log_subjects ms)"
  by (induction ms) (auto intro!: keeps_ret keeps_andThen keeps_messages_get)

lemma keeps_queryEmails:
  assumes "\<And>w cs. p (w\<lparr>calls := cs\<rparr>) = p w"
  shows "keeps p queryEmails"
proof -
  have "queryEmails = andThen (messages_list primary_query 100) (\<lambda>response.
         andThen (if length (or_empty response) = 0
                  then andThen (messages_list secondary_query 100) (\<lambda>response. ret (or_empty response))
                  else ret (or_empty response)) (\<lambda>messages.
         andThen (if length messages > 0 then log_subjects messages else ret ()) (\<lambda>_.
         ret messages)))"
    by (rule ext) (simp add: queryEmails_def)
  then have eq: "queryEmails = andThen (messages_list primary_query 100) (\<lambda>response.
         andThen (if length (or_empty response) = 0
                  then andThen (messages_list secondary_query 100) (\<lambda>response. ret (or_empty response))
                  else ret (or_empty response)) (\<lambda>messages.
         andThen (if length messages > 0 then log_subjects messages else ret ()) (\<lambda>_.
         ret messages)))" .
  show ?thesis
    apply (subst eq)
    using assms
    by (auto intro!: keeps_andThen keeps_messages_list keeps_ret keeps_log_subjects)
qed

lemma keeps_extractSignupInfo:
  assumes "\<And>w cs. p (w\<lparr>calls := cs\<rparr>) = p w"
  shows "keeps p (extractSignupInfo i)"
  unfolding extractSignupInfo_def
  by (intro keeps_andThen keeps_messages_get keeps_lift keeps_ret assms)


subsection \<open>Drive and Sheets\<close>

lemma keeps_drive_list_folders:
  "(\<And>w cs. p (w\<lparr>calls := cs\<rparr>) = p w) \<Longrightarrow> keeps p drive_list_folders"
  unfolding drive_list_folders_def by (rule keeps_read)

lemma keeps_drive_list_sheets:
  "(\<And>w cs. p (w\<lparr>calls := cs\<rparr>) = p w) \<Longrightarrow> keeps p (drive_list_sheets f)"
  unfolding drive_list_sheets_def by (rule keeps_read)

lemma keeps_drive_create_folder:
  "(\<And>w cs. p (w\<lparr>calls := cs\<rparr>) = p w) \<Longrightarrow> (\<And>w x. p (w\<lparr>folders := x\<rparr>) = p w) \<Longrightarrow>
   keeps p drive_create_folder"
  by (auto simp: keeps_def drive_create_folder_def andThen_def request_def split: if_splits)

lemma keeps_spreadsheets_get:
  "(\<And>w cs. p (w\<lparr>calls := cs\<rparr>) = p w) \<Longrightarrow> keeps p (spreadsheets_get i)"
  by (auto simp: keeps_def spreadsheets_get_def andThen_def request_def
           split: if_splits option.splits)

lemma keeps_spreadsheets_create:
  "(\<And>w cs. p (w\<lparr>calls := cs\<rparr>) = p w) \<Longrightarrow> (\<And>w x. p (w\<lparr>files := x\<rparr>) = p w) \<Longrightarrow>
   keeps p spreadsheets_create"
  by (auto simp: keeps_def spreadsheets_create_def andThen_def request_def split: if_splits)

lemma keeps_spreadsheets_batchUpdate:
  "(\<And>w cs. p (w\<lparr>calls := cs\<rparr>) = p w) \<Longrightarrow> keeps p (spreadsheets_batchUpdate i)"
  by (auto simp: keeps_def spreadsheets_batchUpdate_def andThen_def request_def
           split: if_splits option.splits)

lemma keeps_drive_update:
  "(\<And>w cs. p (w\<lparr>calls := cs\<rparr>) = p w) \<Longrightarrow> (\<And>w x. p (w\<lparr>files := x\<rparr>) = p w) \<Longrightarrow>
   keeps p (drive_update i f)"
  by (auto simp: keeps_def drive_update_def andThen_def request_def
           split: if_splits option.splits)


lemma keeps_values_append:
  "(\<And>w cs. p (w\<lparr>calls := cs\<rparr>) = p w) \<Longrightarrow> (\<And>w x. p (w\<lparr>files := x\<rparr>) = p w) \<Longrightarrow>
   keeps p (values_append i opt row)"
  by (auto simp: keeps_def values_append_def andThen_def request_def
           split: if_splits option.splits)

lemma keeps_drive_export:
  "(\<And>w cs. p (w\<lparr>calls := cs\<rparr>) = p w) \<Longrightarrow> keeps p (drive_export i)"
  by (auto simp: keeps_def drive_export_def andThen_def request_def
           split: if_splits option.splits)

lemma keeps_createOrGetSpreadsheet:
  assumes "\<And>w cs. p (w\<lparr>calls := cs\<rparr>) = p w" "\<And>w x. p (w\<lparr>folders := x\<rparr>) = p w"
    "\<And>w x. p (w\<lparr>files := x\<rparr>) = p w"
  shows "keeps p createOrGetSpreadsheet"
  unfolding createOrGetSpreadsheet_def
  by (auto intro!: keeps_andThen keeps_ret keeps_drive_list_folders keeps_drive_create_folder
        keeps_drive_list_sheets keeps_spreadsheets_get keeps_spreadsheets_create
        keeps_spreadsheets_batchUpdate keeps_drive_update assms split: option.splits)

lemma keeps_saveToGoogleSheets:
  assumes "\<And>w cs. p (w\<lparr>calls := cs\<rparr>) = p w" "\<And>w x. p (w\<lparr>folders := x\<rparr>) = p w"
    "\<And>w x. p (w\<lparr>files := x\<rparr>) = p w"
  shows "keeps p (saveToGoogleSheets d)"
  unfolding saveToGoogleSheets_def
  by (intro keeps_andThen keeps_ret keeps_createOrGetSpreadsheet keeps_values_append assms)


subsection \<open>The requests each operation sends\<close>

lemma adds_read: "K c \<Longrightarrow> (\<And>w r w'. f w = (r, w') \<Longrightarrow> calls w' = calls w) \<Longrightarrow>
   adds K (andThen (request c) (\<lambda>_. f))"
  by (intro adds_andThen adds_request adds_state)

lemma adds_messages_list: "K (MessagesList q n) \<Longrightarrow> adds K (messages_list q n)"
  unfolding messages_list_def by (rule adds_read) auto

lemma adds_messages_get: "K (MessagesGet i f) \<Longrightarrow> adds K (messages_get i f)"
  unfolding messages_get_def by (rule adds_read) (auto split: option.splits)

lemma adds_messages_modify: "K (MessagesModify i) \<Longrightarrow> adds K (messages_modify i)"
  unfolding messages_modify_def by (rule adds_read) (auto split: if_splits)

lemma adds_log_subjects: "(\<And>i. K (MessagesGet i Metadata)) \<Longrightarrow> adds K (log_subjects ms)"
  by (induction ms) (auto intro!: adds_ret adds_andThen adds_messages_get)

lemma queryEmails_unfold:
  "queryEmails = andThen (messages_list primary_query 100) (\<lambda>response.
         andThen (if length (or_empty response) = 0
                  then andThen (messages_list secondary_query 100) (\<lambda>response. ret (or_empty response))
                  else ret (or_empty response)) (\<lambda>messages.
         andThen (if length messages > 0 then log_subjects messages else ret ()) (\<lambda>_.
         ret messages)))"
  by (rule ext) (simp add: queryEmails_def)

lemma adds_queryEmails:
  assumes "\<And>q n. K (MessagesList q n)" "\<And>i. K (MessagesGet i Metadata)"
  shows "adds K queryEmails"
  apply (subst queryEmails_unfold)
  using assms
  by (auto intro!: adds_andThen adds_messages_list adds_ret adds_log_subjects)

lemma adds_extractSignupInfo:
  assumes "K (MessagesGet i Full)"
  shows "adds K (extractSignupInfo i)"
  unfolding extractSignupInfo_def
  by (intro adds_andThen adds_messages_get adds_lift adds_ret assms)

lemma adds_markEmailAsRead: "K (MessagesModify i) \<Longrightarrow> adds K (markEmailAsRead i)"
  unfolding markEmailAsRead_def by (rule adds_messages_modify)


lemma adds_drive_list_sheets: "K (FilesListSheets f) \<Longrightarrow> adds K (drive_list_sheets f)"
  unfolding drive_list_sheets_def by (rule adds_read) auto

lemma adds_drive_create_folder: "K FilesCreateFolder \<Longrightarrow> adds K drive_create_folder"
  unfolding drive_create_folder_def by (rule adds_read) auto

lemma adds_spreadsheets_get: "K (SpreadsheetsGet i) \<Longrightarrow> adds K (spreadsheets_get i)"
  unfolding spreadsheets_get_def by (rule adds_read) (auto split: option.splits)

lemma adds_spreadsheets_create: "K SpreadsheetsCreate \<Longrightarrow> adds K spreadsheets_create"
  unfolding spreadsheets_create_def by (rule adds_read) auto

lemma adds_spreadsheets_batchUpdate:
  "K (SpreadsheetsBatchUpdate i) \<Longrightarrow> adds K (spreadsheets_batchUpdate i)"
  unfolding spreadsheets_batchUpdate_def by (rule adds_read) (auto split: option.splits)

lemma adds_drive_update: "K (FilesUpdate i f) \<Longrightarrow> adds K (drive_update i f)"
  unfolding drive_update_def by (rule adds_read) (auto split: option.splits)


lemma adds_values_append: "K (ValuesAppend i opt row) \<Longrightarrow> adds K (values_append i opt row)"
  unfolding values_append_def by (rule adds_read) (auto split: option.splits)

lemma adds_drive_export: "K (FilesExport i) \<Longrightarrow> adds K (drive_export i)"
  unfolding drive_export_def by (rule adds_read) (auto split: option.splits)

lemma createOrGetSpreadsheet_rest:
  "createOrGetSpreadsheet = andThen drive_list_folders resolve_rest"
  by (simp add: createOrGetSpreadsheet_def resolve_rest_def[abs_def])

lemma adds_resolve_rest: "adds drive_call (resolve_rest x)"
  unfolding resolve_rest_def
  by (auto intro!: adds_andThen adds_ret adds_drive_create_folder adds_drive_list_sheets
        adds_spreadsheets_get adds_spreadsheets_create adds_spreadsheets_batchUpdate
        adds_drive_update simp: drive_call_def split: option.splits)




text \<open>Every run of \<open>createOrGetSpreadsheet\<close> sends exactly one folder lookup.\<close>

lemma count_list_none: "list_all (\<lambda>c. c \<noteq> x) cs \<Longrightarrow> count_list cs x = 0"
  by (induction cs) auto

lemma lookups_createOrGetSpreadsheet:
  assumes "createOrGetSpreadsheet w = (r, w')"
  shows "lookups w' = Suc (lookups w)"
proof -
  obtain r1 w1 where l: "drive_list_folders w = (r1, w1)" by (cases "drive_list_folders w")
  then have c1: "calls w1 = calls w @ [FilesListFolders]"
    by (auto simp: drive_list_folders_def andThen_def request_def split: if_splits)
  show ?thesis
  proof (cases r1)
    case (Inl e)
    with assms l have "w' = w1" by (simp add: createOrGetSpreadsheet_rest andThen_def)
    with c1 show ?thesis by (simp add: lookups_def)
  next
    case (Inr x)
    with assms l have "resolve_rest x w1 = (r, w')"
      by (simp add: createOrGetSpreadsheet_rest andThen_def)
    from addsD[OF adds_resolve_rest this] obtain cs where
      cs: "calls w' = calls w1 @ cs" "list_all drive_call cs" by blast
    have "list_all (\<lambda>c. c \<noteq> FilesListFolders) cs"
      using cs(2) by (auto simp: list_all_iff drive_call_def)
    then have "count_list cs FilesListFolders = 0" by (rule count_list_none)
    with cs(1) c1 show ?thesis by (simp add: lookups_def)
  qed
qed

subsection \<open>The Drive\<close>

lemma find_folder_upd [simp]:
  "find_folder (w\<lparr>calls := cs\<rparr>) = find_folder w"
  "find_folder (w\<lparr>files := fs\<rparr>) = find_folder w"
  "find_folder (w\<lparr>mailbox := mb\<rparr>) = find_folder w"
  "find_folder (w\<lparr>tempfile := t\<rparr>) = find_folder w"
  by (simp_all add: find_folder_def)

lemma find_sheet_upd [simp]:
  "find_sheet f (w\<lparr>calls := cs\<rparr>) = find_sheet f w"
  "find_sheet f (w\<lparr>folders := fo\<rparr>) = find_sheet f w"
  "find_sheet f (w\<lparr>mailbox := mb\<rparr>) = find_sheet f w"
  "find_sheet f (w\<lparr>tempfile := t\<rparr>) = find_sheet f w"
  by (simp_all add: find_sheet_def)

lemma find_file_upd [simp]:
  "find_file i (w\<lparr>calls := cs\<rparr>) = find_file i w"
  "find_file i (w\<lparr>folders := fo\<rparr>) = find_file i w"
  "find_file i (w\<lparr>mailbox := mb\<rparr>) = find_file i w"
  "find_file i (w\<lparr>tempfile := t\<rparr>) = find_file i w"
  by (simp_all add: find_file_def)

lemma fresh_id_upd [simp]:
  "fresh_id (w\<lparr>calls := cs\<rparr>) = fresh_id w"
  by (simp_all add: fresh_id_def all_ids_def)

lemma find_store_same:
  "folders w' = folders w \<Longrightarrow> files w' = files w \<Longrightarrow> find_store w' = find_store w"
proof -
  assume a: "folders w' = folders w" "files w' = files w"
  have "find_folder w' = find_folder w" using a by (simp add: find_folder_def)
  moreover have "find_sheet f w' = find_sheet f w" for f using a by (simp add: find_sheet_def)
  ultimately show ?thesis by (simp add: find_store_def split: option.splits)
qed

lemma find_store_upd [simp]:
  "find_store (w\<lparr>calls := cs\<rparr>) = find_store w"
  "find_store (w\<lparr>mailbox := mb\<rparr>) = find_store w"
  "find_store (w\<lparr>tempfile := t\<rparr>) = find_store w"
  by (rule find_store_same; simp)+

lemma rows_of_upd [simp]:
  "rows_of (w\<lparr>calls := cs\<rparr>) i = rows_of w i"
  "rows_of (w\<lparr>mailbox := mb\<rparr>) i = rows_of w i"
  "rows_of (w\<lparr>tempfile := t\<rparr>) i = rows_of w i"
  "rows_of (w\<lparr>folders := fo\<rparr>) i = rows_of w i"
  by (simp_all add: rows_of_def find_file_def)

lemma rows_of_same: "files w' = files w \<Longrightarrow> rows_of w' i = rows_of w i"
  by (simp add: rows_of_def find_file_def)

lemma find_file_same: "files w' = files w \<Longrightarrow> find_file i w' = find_file i w"
  by (simp add: find_file_def)

lemma fold_max_ge: "i \<in> set xs \<Longrightarrow> i \<le> fold max xs (a::nat)"
proof (induction xs arbitrary: a)
  case Nil
  then show ?case by simp
next
  case (Cons x xs)
  have mono: "a \<le> fold max ys a" for ys and a :: nat
    by (induction ys arbitrary: a) (auto intro: le_trans[OF max.cobounded2])
  show ?case
  proof (cases "i = x")
    case True
    have "x \<le> max x a" by simp
    also have "\<dots> \<le> fold max xs (max x a)" by (rule mono)
    finally show ?thesis using True by simp
  next
    case False
    with Cons show ?thesis by simp
  qed
qed

lemma fresh_id_new: "i \<in> set (all_ids w) \<Longrightarrow> i \<noteq> fresh_id w"
  using fold_max_ge[of i "all_ids w" 0] by (auto simp: fresh_id_def)

lemma fresh_not_file: "f \<in> set (files w) \<Longrightarrow> ss_id f \<noteq> fresh_id w"
  by (rule fresh_id_new) (auto simp: all_ids_def)

lemma fresh_not_parent: "f \<in> set (files w) \<Longrightarrow> fresh_id w \<notin> set (ss_parents f)"
  using fresh_id_new[of "fresh_id w" w] by (auto simp: all_ids_def)

lemma find_snoc:
  "find P (xs @ [x]) = (case find P xs of Some y \<Rightarrow> Some y | None \<Rightarrow> if P x then Some x else None)"
  by (induction xs) auto

lemma find_SomeD: "find P xs = Some x \<Longrightarrow> x \<in> set xs \<and> P x"
  by (induction xs) (auto split: if_splits)

lemma find_sheet_Some_file: "find_sheet f w = Some i \<Longrightarrow> find_file i w \<noteq> None"
  by (auto simp: find_sheet_def find_file_def find_None_iff dest!: find_SomeD)

text \<open>When the store is there, resolution finds it and changes nothing.\<close>

lemma resolve_found:
  assumes "find_store w = Some i" and "createOrGetSpreadsheet w = (r, w')"
  shows "folders w' = folders w" "files w' = files w" "\<And>j. r = Inr j \<Longrightarrow> j = i"
    "no_faults w \<Longrightarrow> r = Inr i"
  using assms find_sheet_Some_file[of _ w i]
  by (auto simp: find_store_def createOrGetSpreadsheet_def drive_list_folders_def
      drive_list_sheets_def spreadsheets_get_def andThen_def request_def ret_def no_faults_def
      split: option.splits if_splits)

lemma map_upd_fresh:
  "(\<And>x. x \<in> set xs \<Longrightarrow> ss_id x \<noteq> S) \<Longrightarrow> map (\<lambda>x. if ss_id x = S then h x else x) xs = xs"
  by (induction xs) auto

lemma find_file_fresh: "find_file (fresh_id w) w = None"
  using fresh_not_file[of _ w] by (auto simp: find_file_def find_None_iff)

lemma create_sheet_tail:
  assumes f: "find_sheet f w = None"
    and run: "andThen spreadsheets_create (\<lambda>sid.
              andThen (spreadsheets_batchUpdate sid) (\<lambda>_.
              andThen (drive_update sid f) (\<lambda>_. ret sid))) w = (r, w')"
  shows "folders w' = folders w"
    and "\<And>j. r = Inr j \<Longrightarrow> find_sheet f w' = Some j \<and> rows_of w' j = [header_row]"
    and "\<And>e. r = Inl e \<Longrightarrow> find_sheet f w' = None"
    and "no_faults w \<Longrightarrow> \<exists>j. r = Inr j"
proof -
  define S where "S = fresh_id w"
  have nofile: "find (\<lambda>x. ss_id x = S) (files w) = None"
    using find_file_fresh[of w] by (simp add: find_file_def S_def)
  have nosheet: "find (\<lambda>x. f \<in> set (ss_parents x) \<and> ss_name x = sheet_name) (files w) = None"
    using f by (simp add: find_sheet_def)
  have mapfresh: "map (\<lambda>x. if ss_id x = S then h x else x) (files w) = files w" for h
    by (rule map_upd_fresh) (simp add: S_def fresh_not_file)
  note defs = spreadsheets_create_def spreadsheets_batchUpdate_def drive_update_def andThen_def
    request_def ret_def find_sheet_def find_file_def rows_of_def find_snoc S_def[symmetric]
  show "folders w' = folders w"
    using run by (auto simp: defs split: if_splits option.splits)
  show "find_sheet f w' = Some j \<and> rows_of w' j = [header_row]" if "r = Inr j" for j
    using run that nofile nosheet mapfresh
    by (auto simp: defs split: if_splits option.splits)
  show "find_sheet f w' = None" if "r = Inl e" for e
    using run that nofile nosheet
    by (auto simp: defs split: if_splits option.splits)
  show "\<exists>j. r = Inr j" if "no_faults w"
    using run that nofile
    by (auto simp: defs no_faults_def split: if_splits option.splits)
qed

lemma resolve_rest_folder:
  "resolve_rest x = andThen (case x of Some i \<Rightarrow> ret i | None \<Rightarrow> drive_create_folder) in_folder"
  by (simp add: resolve_rest_def in_folder_def[abs_def])

lemma in_folder_absent:
  assumes ff: "find_folder w = Some f" and fs: "find_sheet f w = None"
    and run: "in_folder f w = (r, w')"
  shows "\<And>j. r = Inr j \<Longrightarrow> find_store w' = Some j \<and> rows_of w' j = [header_row]"
    and "\<And>e. r = Inl e \<Longrightarrow> find_store w' = None"
    and "no_faults w \<Longrightarrow> \<exists>j. r = Inr j"
proof -
  obtain r2 w2 where l: "drive_list_sheets f w = (r2, w2)" by (cases "drive_list_sheets f w")
  then have w2: "w2 = w\<lparr>calls := calls w @ [FilesListSheets f]\<rparr>"
    and r2: "r2 = Inr None \<or> r2 = Inl TransportFailure"
    and ok2: "no_faults w \<Longrightarrow> r2 = Inr None"
    using fs by (auto simp: drive_list_sheets_def andThen_def request_def no_faults_def
        split: if_splits)
  have ff2: "find_folder w2 = Some f" and fs2: "find_sheet f w2 = None"
    using ff fs by (simp_all add: w2)
  have nf2: "no_faults w \<Longrightarrow> no_faults w2" by (simp add: w2)
  show "find_store w' = Some j \<and> rows_of w' j = [header_row]" if "r = Inr j" for j
  proof -
    from that run l r2 have t: "andThen spreadsheets_create (\<lambda>sid.
            andThen (spreadsheets_batchUpdate sid) (\<lambda>_.
            andThen (drive_update sid f) (\<lambda>_. ret sid))) w2 = (r, w')"
      by (auto simp: in_folder_def andThen_def)
    have "find_folder w' = Some f"
      using create_sheet_tail(1)[OF fs2 t] ff2 by (simp add: find_folder_def)
    with create_sheet_tail(2)[OF fs2 t that] show ?thesis by (simp add: find_store_def)
  qed
  show "find_store w' = None" if "r = Inl e" for e
  proof (cases r2)
    case (Inl x)
    with run l have "w' = w2" by (simp add: in_folder_def andThen_def)
    with ff2 fs2 show ?thesis by (simp add: find_store_def)
  next
    case (Inr x)
    with r2 run l have t: "andThen spreadsheets_create (\<lambda>sid.
            andThen (spreadsheets_batchUpdate sid) (\<lambda>_.
            andThen (drive_update sid f) (\<lambda>_. ret sid))) w2 = (r, w')"
      by (auto simp: in_folder_def andThen_def)
    have "find_folder w' = Some f"
      using create_sheet_tail(1)[OF fs2 t] ff2 by (simp add: find_folder_def)
    with create_sheet_tail(3)[OF fs2 t that] show ?thesis by (simp add: find_store_def)
  qed
  show "\<exists>j. r = Inr j" if "no_faults w"
  proof -
    from ok2[OF that] run l have t: "andThen spreadsheets_create (\<lambda>sid.
            andThen (spreadsheets_batchUpdate sid) (\<lambda>_.
            andThen (drive_update sid f) (\<lambda>_. ret sid))) w2 = (r, w')"
      by (auto simp: in_folder_def andThen_def)
    from create_sheet_tail(4)[OF fs2 t nf2[OF that]] show ?thesis .
  qed
qed

lemma resolve_absent:
  assumes none: "find_store w = None" and run: "createOrGetSpreadsheet w = (r, w')"
  shows "\<And>j. r = Inr j \<Longrightarrow> find_store w' = Some j \<and> rows_of w' j = [header_row]"
    and "\<And>e. r = Inl e \<Longrightarrow> find_store w' = None"
    and "no_faults w \<Longrightarrow> \<exists>j. r = Inr j"
proof -
  define w1 where "w1 = w\<lparr>calls := calls w @ [FilesListFolders]\<rparr>"
  have nf1: "no_faults w \<Longrightarrow> no_faults w1" by (simp add: w1_def)
  have st1: "find_store w1 = None" using none by (simp add: w1_def)
  have l: "drive_list_folders w =
     (if faults w (length (calls w)) then Inl TransportFailure else Inr (find_folder w), w1)"
    by (simp add: drive_list_folders_def andThen_def request_def w1_def)
  consider (fail) "faults w (length (calls w))" "r = Inl TransportFailure" "w' = w1"
    | (folder) f where "\<not> faults w (length (calls w))" "find_folder w = Some f"
        "in_folder f w1 = (r, w')"
    | (nofolder) "\<not> faults w (length (calls w))" "find_folder w = None"
        "andThen drive_create_folder in_folder w1 = (r, w')"
    using run l
    by (cases "find_folder w")
       (auto simp: createOrGetSpreadsheet_rest resolve_rest_folder andThen_def ret_def
             split: if_splits)
  then have "(\<forall>j. r = Inr j \<longrightarrow> find_store w' = Some j \<and> rows_of w' j = [header_row]) \<and>
     (\<forall>e. r = Inl e \<longrightarrow> find_store w' = None) \<and> (no_faults w \<longrightarrow> (\<exists>j. r = Inr j))"
  proof cases
    case fail
    then show ?thesis using st1 by (auto simp: no_faults_def)
  next
    case (folder f)
    have ff: "find_folder w1 = Some f" using folder(2) by (simp add: w1_def)
    have fs: "find_sheet f w1 = None" using none folder(2) by (simp add: w1_def find_store_def)
    from in_folder_absent[OF ff fs folder(3)] nf1 show ?thesis by blast
  next
    case nofolder
    define F where "F = fresh_id w1"
    define w3 where "w3 = w1\<lparr>calls := calls w1 @ [FilesCreateFolder],
                              folders := folders w1 @ [(F, folder_name)]\<rparr>"
    have c: "drive_create_folder w1 =
       (if faults w1 (length (calls w1))
        then (Inl TransportFailure, w1\<lparr>calls := calls w1 @ [FilesCreateFolder]\<rparr>)
        else (Inr F, w3))"
      by (simp add: drive_create_folder_def andThen_def request_def w3_def F_def)
    show ?thesis
    proof (cases "faults w1 (length (calls w1))")
      case True
      with nofolder(3) c have "r = Inl TransportFailure"
        "w' = w1\<lparr>calls := calls w1 @ [FilesCreateFolder]\<rparr>"
        by (auto simp: andThen_def)
      then show ?thesis using st1 True by (auto simp: no_faults_def w1_def)
    next
      case False
      with nofolder(3) c have run3: "in_folder F w3 = (r, w')" by (auto simp: andThen_def)
      have "find_folder w1 = None" using nofolder(2) by (simp add: w1_def)
      then have ff: "find_folder w3 = Some F"
        by (simp add: find_folder_def w3_def find_snoc)
      have "find_sheet F w1 = None"
        using fresh_not_parent[of _ w1] by (auto simp: find_sheet_def find_None_iff F_def)
      then have fs: "find_sheet F w3 = None" by (simp add: w3_def)
      have nf3: "no_faults w \<Longrightarrow> no_faults w3" by (simp add: w3_def w1_def no_faults_def)
      from in_folder_absent[OF ff fs run3] nf3 show ?thesis by blast
    qed
  qed
  then show "\<And>j. r = Inr j \<Longrightarrow> find_store w' = Some j \<and> rows_of w' j = [header_row]"
    and "\<And>e. r = Inl e \<Longrightarrow> find_store w' = None"
    and "no_faults w \<Longrightarrow> \<exists>j. r = Inr j"
    by blast+
qed

subsection \<open>Appending and reading rows\<close>

lemma find_map_pres:
  "(\<And>x. P (g x) = P x) \<Longrightarrow> find P (map g xs) = map_option g (find P xs)"
  by (induction xs) auto

lemma values_append_effect:
  assumes "values_append i opt row w = (r, w')"
  shows "find_store w' = find_store w"
    and "r = Inr u \<Longrightarrow> rows_of w' i = rows_of w i @ [as_stored w opt row]"
    and "r = Inl e \<Longrightarrow> files w' = files w"
    and "no_faults w \<Longrightarrow> find_file i w \<noteq> None \<Longrightarrow> r = Inr ()"
proof -
  define g :: "spreadsheet \<Rightarrow> spreadsheet"
    where "g = (\<lambda>f. if ss_id f = i then f\<lparr>ss_rows := ss_rows f @ [as_stored w opt row]\<rparr> else f)"
  define w1 where "w1 = w\<lparr>calls := calls w @ [ValuesAppend i opt row]\<rparr>"
  have cases: "(r = Inl TransportFailure \<and> w' = w1) \<or> (r = Inl NotFound \<and> w' = w1) \<or>
     (r = Inr () \<and> find_file i w \<noteq> None \<and> w' = w1\<lparr>files := map g (files w)\<rparr>)"
    using assms
    by (auto simp: values_append_def andThen_def request_def g_def w1_def
             split: if_splits option.splits)
  have fs: "find_sheet f (w1\<lparr>files := map g (files w)\<rparr>) = find_sheet f w" for f
  proof -
    have "find (\<lambda>x. f \<in> set (ss_parents x) \<and> ss_name x = sheet_name) (map g (files w)) =
          map_option g (find (\<lambda>x. f \<in> set (ss_parents x) \<and> ss_name x = sheet_name) (files w))"
      by (rule find_map_pres) (simp add: g_def)
    moreover have "ss_id (g x) = ss_id x" for x by (simp add: g_def)
    ultimately show ?thesis
      by (simp add: find_sheet_def option.map_comp o_def)
  qed
  have st: "find_store (w1\<lparr>files := map g (files w)\<rparr>) = find_store w"
    using fs by (simp add: find_store_def w1_def split: option.splits)
  show "find_store w' = find_store w"
    using cases st by (auto simp: w1_def)
  show "rows_of w' i = rows_of w i @ [as_stored w opt row]" if "r = Inr u"
  proof -
    from cases that have w': "w' = w1\<lparr>files := map g (files w)\<rparr>"
      and ex: "find_file i w \<noteq> None" by auto
    have "find (\<lambda>x. ss_id x = i) (map g (files w)) = map_option g (find (\<lambda>x. ss_id x = i) (files w))"
      by (rule find_map_pres) (simp add: g_def)
    then show ?thesis using ex
      by (auto simp: w' rows_of_def find_file_def g_def dest: find_SomeD)
  qed
  show "files w' = files w" if "r = Inl e"
    using cases that by (auto simp: w1_def)
  show "r = Inr ()" if "no_faults w" "find_file i w \<noteq> None"
    using assms that
    by (auto simp: values_append_def andThen_def request_def no_faults_def
             split: if_splits option.splits)
qed

lemma values_append_folders:
  "values_append i opt row w = (r, w') \<Longrightarrow> folders w' = folders w"
  by (rule keepsD[OF keeps_values_append]) simp_all

lemma find_store_file: "find_store w = Some i \<Longrightarrow> find_file i w \<noteq> None"
  by (auto simp: find_store_def split: option.splits dest: find_sheet_Some_file)

lemma saveToGoogleSheets_effect:
  assumes st: "find_store w = Some i" and run: "saveToGoogleSheets d w = (r, w')"
  shows "find_store w' = Some i"
    and "\<And>j. r = Inr j \<Longrightarrow>
           j = i \<and> rows_of w' i = rows_of w i @ [map (entered w) [date d, name d, phone d, email d]]"
    and "\<And>e. r = Inl e \<Longrightarrow> rows_of w' i = rows_of w i"
    and "no_faults w \<Longrightarrow> r = Inr i"
proof -
  obtain r1 w1 where c: "createOrGetSpreadsheet w = (r1, w1)"
    by (cases "createOrGetSpreadsheet w")
  note f = resolve_found[OF st c]
  have st1: "find_store w1 = Some i" using f(1,2) st find_store_same by metis
  have rows1: "rows_of w1 i = rows_of w i" using f(2) by (rule rows_of_same)
  have nf1: "no_faults w \<Longrightarrow> no_faults w1"
    using keepsD[OF keeps_createOrGetSpreadsheet c, of faults] by (simp add: no_faults_def)
  have en1: "entered w1 = entered w"
    by (rule keepsD[OF keeps_createOrGetSpreadsheet c]) simp_all
  show "find_store w' = Some i"
  proof (cases r1)
    case (Inl e)
    with run c have "w' = w1" by (simp add: saveToGoogleSheets_def andThen_def)
    with st1 show ?thesis by simp
  next
    case (Inr j)
    with f(3) have j: "j = i" by simp
    obtain r2 w2 where a: "values_append i USER_ENTERED [date d, name d, phone d, email d] w1 = (r2, w2)"
      by (cases "values_append i USER_ENTERED [date d, name d, phone d, email d] w1")
    with run c Inr j have "w' = w2"
      by (auto simp: saveToGoogleSheets_def andThen_def ret_def split: sum.splits)
    with values_append_effect(1)[OF a] st1 show ?thesis by simp
  qed
  show "j = i \<and> rows_of w' i = rows_of w i @ [map (entered w) [date d, name d, phone d, email d]]"
    if "r = Inr j" for j
  proof -
    from that run c obtain k where r1: "r1 = Inr k"
      by (cases r1) (auto simp: saveToGoogleSheets_def andThen_def)
    with f(3) have k: "k = i" by simp
    obtain r2 w2 where a: "values_append i USER_ENTERED [date d, name d, phone d, email d] w1 = (r2, w2)"
      by (cases "values_append i USER_ENTERED [date d, name d, phone d, email d] w1")
    with run c r1 k that have "w' = w2" "r2 = Inr ()" "j = i"
      by (auto simp: saveToGoogleSheets_def andThen_def ret_def split: sum.splits)
    with values_append_effect(2)[OF a] rows1 en1 show ?thesis by (simp add: as_stored_def)
  qed
  show "rows_of w' i = rows_of w i" if "r = Inl e" for e
  proof (cases r1)
    case (Inl e1)
    with run c have "w' = w1" by (simp add: saveToGoogleSheets_def andThen_def)
    with rows1 show ?thesis by simp
  next
    case (Inr k)
    with f(3) have k: "k = i" by simp
    obtain r2 w2 where a: "values_append i USER_ENTERED [date d, name d, phone d, email d] w1 = (r2, w2)"
      by (cases "values_append i USER_ENTERED [date d, name d, phone d, email d] w1")
    with run c Inr k that obtain e2 where "w' = w2" "r2 = Inl e2"
      by (auto simp: saveToGoogleSheets_def andThen_def ret_def split: sum.splits)
    with values_append_effect(3)[OF a] rows1 show ?thesis
      using rows_of_same by metis
  qed
  show "r = Inr i" if "no_faults w"
  proof -
    from f(4)[OF that] have r1: "r1 = Inr i" .
    obtain r2 w2 where a: "values_append i USER_ENTERED [date d, name d, phone d, email d] w1 = (r2, w2)"
      by (cases "values_append i USER_ENTERED [date d, name d, phone d, email d] w1")
    from values_append_effect(4)[OF a nf1[OF that] find_store_file[OF st1]] have "r2 = Inr ()" .
    with run c r1 a show ?thesis
      by (auto simp: saveToGoogleSheets_def andThen_def ret_def)
  qed
qed

lemma isDuplicateEntry_effect:
  assumes "isDuplicateEntry d i w = (r, w')"
  shows "w' = w\<lparr>calls := calls w @ [ValuesGet i]\<rparr>"
    and "\<And>b. r = Inr b \<Longrightarrow>
          b = list_ex (\<lambda>row. cell row 1 = Some (name d) \<and> cell row 2 = Some (phone d) \<and>
                            cell row 3 = Some (email d)) (rows_of w i)"
    and "no_faults w \<Longrightarrow> find_file i w \<noteq> None \<Longrightarrow> \<exists>b. r = Inr b"
  using assms
  by (auto simp: isDuplicateEntry_def values_get_def andThen_def request_def ret_def or_empty_def
      rows_of_def no_faults_def split: if_splits option.splits)

lemma markEmailAsRead_effect:
  assumes "markEmailAsRead i w = (r, w')"
  shows "folders w' = folders w" "files w' = files w" "faults w' = faults w"
    and "no_faults w \<Longrightarrow> i \<in> msg_id ` set (mailbox w) \<Longrightarrow>
         r = Inr () \<and> (\<forall>m\<in>set (mailbox w'). msg_id m = i \<longrightarrow> \<not> unread m)"
  using assms
  by (auto simp: markEmailAsRead_def messages_modify_def andThen_def request_def no_faults_def
      split: if_splits)

subsection \<open>Cells that read back as written\<close>

lemma decode_body_unread [simp]: "decode_body (m\<lparr>unread := b\<rparr>) = decode_body m"
  by (simp add: decode_body_def split: option.splits list.splits)

lemma field_of_unread [simp]: "field_of pattern (m\<lparr>unread := b\<rparr>) = field_of pattern m"
  by (simp add: field_of_def)











text \<open>The fields of a record that was extracted are fields of a message of the mailbox.\<close>

lemma extract_fields:
  assumes "extractSignupInfo i w = (Inr d, w1)"
  shows "\<exists>m\<in>set (mailbox w). field_of name_pattern m = Some (name d) \<and>
           field_of phone_pattern m = Some (phone d) \<and> field_of email_pattern m = Some (email d)"
proof -
  from extractSignupInfo_Inr[OF assms] obtain m body where
    g: "messages_get i Full w = (Inr m, w1)" and b: "decode_body m = Inr body" by blast
  from messages_get_Inr[OF g] have "find (\<lambda>m. msg_id m = i) (mailbox w) = Some m" by simp
  from find_SomeD[OF this] have m: "m \<in> set (mailbox w)" by simp
  obtain xn xp xe where x: "extract_field name_pattern body = Inr xn"
    "extract_field phone_pattern body = Inr xp" "extract_field email_pattern body = Inr xe"
    using extract_field_total
    unfolding name_pattern_cell phone_pattern_cell email_pattern_cell by metis
  from extractSignupInfo_eq[OF g b x] assms
  have "name d = or_default xn (js ''Not provided'')" "phone d = or_default xp (js ''Not provided'')"
    "email d = or_default xe (js ''Not provided'')" by auto
  with b x have "field_of name_pattern m = Some (name d) \<and>
           field_of phone_pattern m = Some (phone d) \<and> field_of email_pattern m = Some (email d)"
    by (simp add: field_of_def)
  with m show ?thesis by blast
qed

lemma extract_kept:
  assumes "extractSignupInfo i w = (Inr d, w1)" and "cells_kept w"
  shows "entered w (name d) = name d \<and> entered w (phone d) = phone d \<and>
         entered w (email d) = email d"
  using extract_fields[OF assms(1)] assms(2) by (auto simp: cells_kept_def)

subsection \<open>One turn of the loop\<close>

lemma extract_drive:
  assumes "extractSignupInfo i w = (r, w1)"
  shows "folders w1 = folders w" "files w1 = files w" "faults w1 = faults w"
    "mailbox w1 = mailbox w" "tempfile w1 = tempfile w"
  using keepsD[OF keeps_extractSignupInfo assms, of folders]
    keepsD[OF keeps_extractSignupInfo assms, of files]
    keepsD[OF keeps_extractSignupInfo assms, of faults]
    keepsD[OF keeps_extractSignupInfo assms, of mailbox]
    keepsD[OF keeps_extractSignupInfo assms, of tempfile]
  by simp_all

lemma unique_rows_same:
  "folders w' = folders w \<Longrightarrow> files w' = files w \<Longrightarrow> unique_rows w' = unique_rows w"
  using find_store_same[of w' w] rows_of_same[of w' w]
  by (simp add: unique_rows_def split: option.splits)

lemma triple_of_row:
  "triple_of [a, b, c, d] = (Some b, Some c, Some d)"
  by (simp add: triple_of_def cell_def)

lemma distinct_append_row:
  assumes "distinct (map triple_of (tl rows))" and "\<not> is_duplicate d rows"
    and "f (name d) = name d" and "f (phone d) = phone d" and "f (email d) = email d"
  shows "distinct (map triple_of (tl (rows @ [map f [date d, name d, phone d, email d]])))"
proof (cases rows)
  case Nil
  then show ?thesis by simp
next
  case (Cons h t)
  have "triple_of (map f [date d, name d, phone d, email d]) \<notin> set (map triple_of t)"
    using assms(2-5) Cons
    by (auto simp: is_duplicate_def list_ex_iff triple_of_def cell_def split: if_splits)
  with assms(1) Cons show ?thesis by simp
qed

text \<open>The resolution that \<open>main\<close> makes when it holds no identifier.\<close>

lemma resolve_step:
  assumes run: "createOrGetSpreadsheet w = (r, w')"
  shows "\<And>j. r = Inr j \<Longrightarrow> find_store w' = Some j"
    and "unique_rows w \<Longrightarrow> unique_rows w'"
    and "no_faults w \<Longrightarrow> \<exists>j. r = Inr j"
    and "\<And>s j. find_store w = Some s \<Longrightarrow> r = Inr j \<Longrightarrow> j = s \<and> rows_of w' j = rows_of w s"
    and "\<And>j. find_store w = None \<Longrightarrow> r = Inr j \<Longrightarrow> rows_of w' j = [header_row]"
proof -
  show "find_store w' = Some j" if "r = Inr j" for j
  proof (cases "find_store w")
    case None
    from resolve_absent(1)[OF None run that] show ?thesis by simp
  next
    case (Some s)
    have "find_store w' = find_store w"
      by (rule find_store_same[OF resolve_found(1,2)[OF Some run]])
    moreover have "j = s" using resolve_found(3)[OF Some run that] .
    ultimately show ?thesis using Some by simp
  qed
  show "unique_rows w'" if "unique_rows w"
  proof (cases "find_store w")
    case None
    show ?thesis
    proof (cases r)
      case (Inl e)
      from resolve_absent(2)[OF None run Inl] show ?thesis by (simp add: unique_rows_def)
    next
      case (Inr j)
      from resolve_absent(1)[OF None run Inr] show ?thesis by (simp add: unique_rows_def)
    qed
  next
    case (Some s)
    from unique_rows_same[OF resolve_found(1,2)[OF Some run]] that show ?thesis by simp
  qed
  show "\<exists>j. r = Inr j" if "no_faults w"
  proof (cases "find_store w")
    case None
    from resolve_absent(3)[OF None run that] show ?thesis .
  next
    case (Some s)
    from resolve_found(4)[OF Some run that] show ?thesis by blast
  qed
  show "j = s \<and> rows_of w' j = rows_of w s" if "find_store w = Some s" "r = Inr j" for s j
    using resolve_found(3)[OF that(1) run that(2)]
      rows_of_same[OF resolve_found(2)[OF that(1) run], of s] by simp
  show "rows_of w' j = [header_row]" if "find_store w = None" "r = Inr j" for j
    using resolve_absent(1)[OF that(1) run that(2)] by simp
qed

lemma createOrGet_faults:
  "createOrGetSpreadsheet w = (r, w') \<Longrightarrow> faults w' = faults w"
  by (rule keepsD[OF keeps_createOrGetSpreadsheet]) simp_all

lemma save_faults: "saveToGoogleSheets d w = (r, w') \<Longrightarrow> faults w' = faults w"
  by (rule keepsD[OF keeps_saveToGoogleSheets]) simp_all

lemma extract_entered: "extractSignupInfo i w = (r, w') \<Longrightarrow> entered w' = entered w"
  by (rule keepsD[OF keeps_extractSignupInfo]) simp_all

lemma createOrGet_entered:
  "createOrGetSpreadsheet w = (r, w') \<Longrightarrow> entered w' = entered w"
  by (rule keepsD[OF keeps_createOrGetSpreadsheet]) simp_all

text \<open>
  The invariant of the loop, under any transport failures: the identifier held is the
  store, the rows of the store stay distinct when the cells read back as written, and
  a run that has appended holds an identifier.
\<close>

lemma process_message_inv:
  assumes run: "process_message i st w = (st', w')" and ok: "cache_ok st w"
  shows "cache_ok st' w'"
    and "unique_rows w \<Longrightarrow> cells_kept w \<Longrightarrow> unique_rows w'"
    and "(0 < processedCount st \<longrightarrow> spreadsheetId st \<noteq> None) \<Longrightarrow>
         (0 < processedCount st' \<longrightarrow> spreadsheetId st' \<noteq> None)"
proof -
  obtain r1 w1 where e: "extractSignupInfo i w = (r1, w1)"
    by (cases "extractSignupInfo i w")
  note d1 = extract_drive(1,2)[OF e]
  have ok1: "cache_ok st w1" using ok d1 find_store_same[of w1 w] by (simp add: cache_ok_def)
  have u1: "unique_rows w1 = unique_rows w" using d1 by (rule unique_rows_same)
  have "cache_ok st' w' \<and> (unique_rows w \<and> cells_kept w \<longrightarrow> unique_rows w') \<and>
        ((0 < processedCount st \<longrightarrow> spreadsheetId st \<noteq> None) \<longrightarrow>
         (0 < processedCount st' \<longrightarrow> spreadsheetId st' \<noteq> None))"
  proof (cases r1)
    case (Inl err)
    with run e have "st' = st" "w' = w1" by (simp_all add: process_message_def)
    with ok1 u1 show ?thesis by simp
  next
    case (Inr d)
    obtain r2 w2 where res: "(case spreadsheetId st of None \<Rightarrow> createOrGetSpreadsheet w1
                              | Some k \<Rightarrow> (Inr k, w1)) = (r2, w2)"
      by (cases "case spreadsheetId st of None \<Rightarrow> createOrGetSpreadsheet w1 | Some k \<Rightarrow> (Inr k, w1)")
    have u2: "unique_rows w \<Longrightarrow> unique_rows w2"
      using res u1 resolve_step(2) by (auto split: option.splits)
    have s2: "find_store w2 = Some j" if "r2 = Inr j" for j
      using res that ok1 resolve_step(1) by (auto simp: cache_ok_def split: option.splits)
    have en2: "entered w2 = entered w"
      using res extract_entered[OF e] createOrGet_entered by (auto split: option.splits)
    show ?thesis
    proof (cases r2)
      case (Inl err)
      with run e Inr res have st': "st' = st" "w' = w2" by (simp_all add: process_message_def)
      have "spreadsheetId st = None" using res Inl by (auto split: option.splits)
      then show ?thesis using st' u2 by (simp add: cache_ok_def)
    next
      case r2: (Inr sid)
      have st2: "find_store w2 = Some sid" using s2 r2 by simp
      obtain r3 w3 where dup: "isDuplicateEntry d sid w2 = (r3, w3)"
        by (cases "isDuplicateEntry d sid w2")
      note d3 = isDuplicateEntry_effect[OF dup]
      have st3: "find_store w3 = Some sid" using st2 by (simp add: d3(1))
      have rows3: "rows_of w3 sid = rows_of w2 sid" by (simp add: d3(1))
      have "folders w3 = folders w2" "files w3 = files w2" by (simp_all add: d3(1))
      then have "unique_rows w3 = unique_rows w2" by (rule unique_rows_same)
      then have u3: "unique_rows w \<Longrightarrow> unique_rows w3"
        using u2 by simp
      show ?thesis
      proof (cases r3)
        case (Inl err)
        with run e Inr res r2 dup have "st' = st\<lparr>spreadsheetId := Some sid\<rparr>" "w' = w3"
          by (simp_all add: process_message_def)
        then show ?thesis using st3 u3 by (simp add: cache_ok_def)
      next
        case r3: (Inr isDuplicate)
        have isdup: "isDuplicate = is_duplicate d (rows_of w2 sid)"
          using d3(2)[OF r3] by (simp add: is_duplicate_def)
        show ?thesis
        proof (cases isDuplicate)
          case True
          obtain r5 w5 where m: "markEmailAsRead i w3 = (r5, w5)"
            by (cases "markEmailAsRead i w3")
          note d5 = markEmailAsRead_effect(1,2)[OF m]
          from run e Inr res r2 dup r3 True m
          have "st' = st\<lparr>spreadsheetId := Some sid, skippedCount := Suc (skippedCount st)\<rparr>"
            "w' = w5"
            by (simp_all add: process_message_def)
          then show ?thesis
            using st3 u3 d5 find_store_same[OF d5] unique_rows_same[OF d5]
            by (simp add: cache_ok_def)
        next
          case False
          obtain r4 w4 where sv: "saveToGoogleSheets d w3 = (r4, w4)"
            by (cases "saveToGoogleSheets d w3")
          note d4 = saveToGoogleSheets_effect[OF st3 sv]
          have u4: "unique_rows w4" if "unique_rows w" "cells_kept w"
          proof -
            have dist: "distinct (map triple_of (tl (rows_of w3 sid)))"
              using u3[OF that(1)] st3 by (simp add: unique_rows_def)
            have nd: "\<not> is_duplicate d (rows_of w3 sid)" using False isdup rows3 by simp
            have en3: "entered w3 = entered w" using en2 by (simp add: d3(1))
            have k: "entered w3 (name d) = name d" "entered w3 (phone d) = phone d"
              "entered w3 (email d) = email d"
              using extract_kept[OF _ that(2), of i d w1] e Inr by (simp_all add: en3)
            show ?thesis
            proof (cases r4)
              case (Inl err)
              with d4(1,3) dist show ?thesis by (simp add: unique_rows_def)
            next
              case (Inr j)
              with d4(1,2) distinct_append_row[OF dist nd k] show ?thesis
                by (simp add: unique_rows_def)
            qed
          qed
          show ?thesis
          proof (cases r4)
            case (Inl err)
            with run e Inr res r2 dup r3 False sv
            have "st' = st\<lparr>spreadsheetId := Some sid\<rparr>" "w' = w4"
              by (simp_all add: process_message_def)
            then show ?thesis using d4(1) u4 by (simp add: cache_ok_def)
          next
            case r4: (Inr j)
            obtain r5 w5 where m: "markEmailAsRead i w4 = (r5, w5)"
              by (cases "markEmailAsRead i w4")
            note d5 = markEmailAsRead_effect(1,2)[OF m]
            from d4(2)[OF r4] have j: "j = sid" by simp
            from run e Inr res r2 dup r3 False sv r4 m
            have "st' = st\<lparr>spreadsheetId := Some j, processedCount := Suc (processedCount st)\<rparr>"
              "w' = w5"
              by (simp_all add: process_message_def)
            then show ?thesis
              using d4(1) u4 j find_store_same[OF d5] unique_rows_same[OF d5]
              by (simp add: cache_ok_def)
          qed
        qed
      qed
    qed
  qed
  then show "cache_ok st' w'" and "unique_rows w \<Longrightarrow> cells_kept w \<Longrightarrow> unique_rows w'"
    and "(0 < processedCount st \<longrightarrow> spreadsheetId st \<noteq> None) \<Longrightarrow>
         (0 < processedCount st' \<longrightarrow> spreadsheetId st' \<noteq> None)"
    by simp_all
qed



subsection \<open>Requests that the loop never sends\<close>

lemma loop_call_simps [simp]:
  "loop_call Authorize" "loop_call (MessagesList q n)" "loop_call (MessagesGet i f)"
  "loop_call (MessagesModify i)" "loop_call FilesListFolders" "loop_call (ValuesGet i)"
  "loop_call (ValuesAppend i opt row)" "drive_call c \<Longrightarrow> loop_call c"
  by (auto simp: loop_call_def drive_call_def)

lemma adds_quiet:
  assumes a: "adds loop_call m" and f: "keeps faults m" and t: "keeps tempfile m"
    and run: "m w = (r, w')"
  shows "quiet w w'"
proof -
  from addsD[OF a run] obtain cs where cs: "calls w' = calls w @ cs" "list_all loop_call cs"
    by blast
  have "filter is_export cs = []" using cs(2) by (auto simp: list_all_iff loop_call_def filter_empty_conv)
  moreover have "count_list cs SendMail = 0"
    using cs(2) by (intro count_list_none) (auto simp: list_all_iff loop_call_def)
  ultimately show ?thesis
    using cs(1) keepsD[OF f run] keepsD[OF t run]
    by (simp add: quiet_def exports_def sends_def)
qed


lemma quiet_trans: "quiet a b \<Longrightarrow> quiet b c \<Longrightarrow> quiet a c"
  by (simp add: quiet_def)






lemma quiet_queryEmails: "queryEmails w = (r, w') \<Longrightarrow> quiet w w'"
  by (rule adds_quiet[OF adds_queryEmails keeps_queryEmails keeps_queryEmails]) simp_all

lemma quiet_authorize: "authorize w = (r, w') \<Longrightarrow> quiet w w'"
  unfolding authorize_def
  by (rule adds_quiet[OF adds_request keeps_request keeps_request]) simp_all



subsection \<open>Folder lookups\<close>

lemma adds_lookups:
  assumes "adds (\<lambda>c. c \<noteq> FilesListFolders) m" and "m w = (r, w')"
  shows "lookups w' = lookups w"
proof -
  from addsD[OF assms] obtain cs where "calls w' = calls w @ cs"
    "list_all (\<lambda>c. c \<noteq> FilesListFolders) cs" by blast
  then show ?thesis using count_list_none[of FilesListFolders cs] by (simp add: lookups_def)
qed

lemma lookups_extract: "extractSignupInfo i w = (r, w') \<Longrightarrow> lookups w' = lookups w"
  by (rule adds_lookups[OF adds_extractSignupInfo]) simp

lemma lookups_markRead: "markEmailAsRead i w = (r, w') \<Longrightarrow> lookups w' = lookups w"
  by (rule adds_lookups[OF adds_markEmailAsRead]) simp

lemma lookups_append: "values_append i opt row w = (r, w') \<Longrightarrow> lookups w' = lookups w"
  by (rule adds_lookups[OF adds_values_append]) simp

lemma lookups_queryEmails: "queryEmails w = (r, w') \<Longrightarrow> lookups w' = lookups w"
  by (rule adds_lookups[OF adds_queryEmails]) simp_all

lemma lookups_save:
  assumes "saveToGoogleSheets d w = (r, w')"
  shows "lookups w' = Suc (lookups w)"
proof -
  obtain r1 w1 where c: "createOrGetSpreadsheet w = (r1, w1)"
    by (cases "createOrGetSpreadsheet w")
  note l = lookups_createOrGetSpreadsheet[OF c]
  show ?thesis
  proof (cases r1)
    case (Inl e)
    with assms c have "w' = w1" by (simp add: saveToGoogleSheets_def andThen_def)
    with l show ?thesis by simp
  next
    case (Inr j)
    obtain r2 w2 where a: "values_append j USER_ENTERED [date d, name d, phone d, email d] w1 = (r2, w2)"
      by (cases "values_append j USER_ENTERED [date d, name d, phone d, email d] w1")
    with assms c Inr have "w' = w2"
      by (auto simp: saveToGoogleSheets_def andThen_def ret_def split: sum.splits)
    with lookups_append[OF a] l show ?thesis by simp
  qed
qed

subsection \<open>One turn of the loop without transport failure\<close>

lemma no_faults_same: "faults w' = faults w \<Longrightarrow> no_faults w' = no_faults w"
  by (simp add: no_faults_def)

lemma extract_message_known:
  assumes "extractSignupInfo i w = (Inr d, w1)"
  shows "i \<in> msg_id ` set (mailbox w)"
proof -
  from extractSignupInfo_Inr[OF assms] obtain m where "messages_get i Full w = (Inr m, w1)"
    by blast
  from messages_get_Inr[OF this] have "find (\<lambda>m. msg_id m = i) (mailbox w) = Some m" by simp
  from find_SomeD[OF this] show ?thesis by auto
qed

lemma process_message_extract_failed:
  assumes "extractSignupInfo i w = (Inl e, w1)"
  shows "process_message i st w = (st, w1)"
  using assms by (simp add: process_message_def)

lemma process_message_nofault:
  assumes nf: "no_faults w" and ok: "cache_ok st w"
    and ex: "extractSignupInfo i w = (Inr d, w1)"
    and run: "process_message i st w = (st', w')"
  shows "\<exists>sid. find_store w' = Some sid \<and> spreadsheetId st' = Some sid \<and>
      (\<forall>s. find_store w = Some s \<longrightarrow> sid = s) \<and>
      rows_of w' sid =
        (if is_duplicate d (case find_store w of Some s \<Rightarrow> rows_of w s | None \<Rightarrow> [header_row])
         then (case find_store w of Some s \<Rightarrow> rows_of w s | None \<Rightarrow> [header_row])
         else (case find_store w of Some s \<Rightarrow> rows_of w s | None \<Rightarrow> [header_row]) @
              [map (entered w) (row_of d)]) \<and>
      processedCount st' = processedCount st +
        (if is_duplicate d (case find_store w of Some s \<Rightarrow> rows_of w s | None \<Rightarrow> [header_row])
         then 0 else 1) \<and>
      skippedCount st' = skippedCount st +
        (if is_duplicate d (case find_store w of Some s \<Rightarrow> rows_of w s | None \<Rightarrow> [header_row])
         then 1 else 0) \<and>
      lookups w' = lookups w + (if spreadsheetId st = None then 1 else 0) +
        (if is_duplicate d (case find_store w of Some s \<Rightarrow> rows_of w s | None \<Rightarrow> [header_row])
         then 0 else 1) \<and>
      (\<forall>m\<in>set (mailbox w'). msg_id m = i \<longrightarrow> \<not> unread m) \<and> no_faults w'"
proof -
  define rows0 where
    "rows0 = (case find_store w of Some s \<Rightarrow> rows_of w s | None \<Rightarrow> [header_row])"
  note d1 = extract_drive[OF ex]
  have nf1: "no_faults w1" using nf d1(3) by (simp add: no_faults_def)
  have st1: "find_store w1 = find_store w" using d1(1,2) by (rule find_store_same)
  have rw1: "rows_of w1 s = rows_of w s" for s using d1(2) by (rule rows_of_same)
  have l1: "lookups w1 = lookups w" using ex by (rule lookups_extract)
  have known: "i \<in> msg_id ` set (mailbox w1)" using extract_message_known[OF ex] d1(4) by simp
  have en1: "entered w1 = entered w" using ex by (rule extract_entered)
  \<comment> \<open>resolution\<close>
  obtain r2 w2 where res: "(case spreadsheetId st of None \<Rightarrow> createOrGetSpreadsheet w1
                            | Some k \<Rightarrow> (Inr k, w1)) = (r2, w2)"
    by (cases "case spreadsheetId st of None \<Rightarrow> createOrGetSpreadsheet w1 | Some k \<Rightarrow> (Inr k, w1)")
  have "\<exists>sid. r2 = Inr sid \<and> find_store w2 = Some sid \<and> rows_of w2 sid = rows0 \<and>
          (\<forall>s. find_store w = Some s \<longrightarrow> sid = s) \<and> no_faults w2 \<and>
          lookups w2 = lookups w + (if spreadsheetId st = None then 1 else 0) \<and>
          mailbox w2 = mailbox w1 \<and> entered w2 = entered w"
  proof (cases "spreadsheetId st")
    case None
    with res have c: "createOrGetSpreadsheet w1 = (r2, w2)" by simp
    from resolve_step(3)[OF c nf1] obtain sid where sid: "r2 = Inr sid" by blast
    have a: "find_store w2 = Some sid" using resolve_step(1)[OF c sid] .
    have b: "rows_of w2 sid = rows0 \<and> (\<forall>s. find_store w = Some s \<longrightarrow> sid = s)"
    proof (cases "find_store w")
      case None
      with resolve_step(5)[OF c _ sid] st1 show ?thesis by (simp add: rows0_def)
    next
      case (Some s)
      with resolve_step(4)[OF c _ sid, of s] st1 rw1 show ?thesis by (auto simp: rows0_def)
    qed
    have "no_faults w2" using nf1 createOrGet_faults[OF c] by (simp add: no_faults_def)
    moreover have "lookups w2 = Suc (lookups w1)" using c by (rule lookups_createOrGetSpreadsheet)
    moreover have "mailbox w2 = mailbox w1"
      by (rule keepsD[OF keeps_createOrGetSpreadsheet c]) simp_all
    moreover have "entered w2 = entered w" using createOrGet_entered[OF c] en1 by simp
    ultimately show ?thesis using sid a b l1 None by simp
  next
    case (Some k)
    with res have "r2 = Inr k" "w2 = w1" by simp_all
    moreover have "find_store w = Some k" using ok Some st1 by (simp add: cache_ok_def)
    ultimately show ?thesis using st1 rw1 nf1 l1 Some en1 by (simp add: rows0_def)
  qed
  then obtain sid where r2: "r2 = Inr sid" and st2: "find_store w2 = Some sid"
    and rw2: "rows_of w2 sid = rows0" and same: "\<forall>s. find_store w = Some s \<longrightarrow> sid = s"
    and nf2: "no_faults w2"
    and l2: "lookups w2 = lookups w + (if spreadsheetId st = None then 1 else 0)"
    and mb2: "mailbox w2 = mailbox w1" and en2: "entered w2 = entered w" by blast
  \<comment> \<open>the duplicate check\<close>
  obtain r3 w3 where dup: "isDuplicateEntry d sid w2 = (r3, w3)"
    by (cases "isDuplicateEntry d sid w2")
  note d3 = isDuplicateEntry_effect[OF dup]
  from d3(3)[OF nf2 find_store_file[OF st2]] obtain b where r3: "r3 = Inr b" by blast
  have b: "b = is_duplicate d rows0" using d3(2)[OF r3] rw2 by (simp add: is_duplicate_def)
  have st3: "find_store w3 = Some sid" using st2 by (simp add: d3(1))
  have rw3: "rows_of w3 sid = rows0" using rw2 by (simp add: d3(1))
  have nf3: "no_faults w3" using nf2 by (simp add: d3(1))
  have l3: "lookups w3 = lookups w2" by (simp add: d3(1) lookups_def)
  have mb3: "mailbox w3 = mailbox w1" using mb2 by (simp add: d3(1))
  have en3: "entered w3 = entered w" using en2 by (simp add: d3(1))
  show ?thesis
  proof (cases b)
    case True
    obtain r5 w5 where m: "markEmailAsRead i w3 = (r5, w5)" by (cases "markEmailAsRead i w3")
    note d5 = markEmailAsRead_effect[OF m]
    from run ex res r2 dup r3 True m
    have st': "st' = st\<lparr>spreadsheetId := Some sid, skippedCount := Suc (skippedCount st)\<rparr>"
      and w': "w' = w5"
      by (simp_all add: process_message_def)
    have "find_store w5 = Some sid" using find_store_same[OF d5(1,2)] st3 by simp
    moreover have "rows_of w5 sid = rows0" using rows_of_same[OF d5(2)] rw3 by simp
    moreover have "lookups w5 = lookups w3" using m by (rule lookups_markRead)
    moreover have "\<forall>m\<in>set (mailbox w5). msg_id m = i \<longrightarrow> \<not> unread m"
      using d5(4)[OF nf3] known mb3 by simp
    moreover have "no_faults w5" using nf3 d5(3) by (simp add: no_faults_def)
    ultimately show ?thesis
      using st' w' True b same l2 l3 unfolding rows0_def[symmetric] by simp
  next
    case False
    obtain r4 w4 where sv: "saveToGoogleSheets d w3 = (r4, w4)"
      by (cases "saveToGoogleSheets d w3")
    note d4 = saveToGoogleSheets_effect[OF st3 sv]
    have r4: "r4 = Inr sid" using d4(4)[OF nf3] .
    have nf4: "no_faults w4" using nf3 save_faults[OF sv] by (simp add: no_faults_def)
    have mb4: "mailbox w4 = mailbox w3"
      by (rule keepsD[OF keeps_saveToGoogleSheets sv]) simp_all
    obtain r5 w5 where m: "markEmailAsRead i w4 = (r5, w5)" by (cases "markEmailAsRead i w4")
    note d5 = markEmailAsRead_effect[OF m]
    from run ex res r2 dup r3 False sv r4 m
    have st': "st' = st\<lparr>spreadsheetId := Some sid, processedCount := Suc (processedCount st)\<rparr>"
      and w': "w' = w5"
      by (simp_all add: process_message_def)
    have "find_store w5 = Some sid" using find_store_same[OF d5(1,2)] d4(1) by simp
    moreover have "rows_of w5 sid = rows0 @ [map (entered w) (row_of d)]"
      using rows_of_same[OF d5(2)] d4(2)[OF r4] rw3 en3 by (simp add: row_of_def)
    moreover have "lookups w5 = Suc (lookups w3)"
      using lookups_markRead[OF m] lookups_save[OF sv] by simp
    moreover have "\<forall>m\<in>set (mailbox w5). msg_id m = i \<longrightarrow> \<not> unread m"
      using d5(4)[OF nf4] known mb3 mb4 by simp
    moreover have "no_faults w5" using nf4 d5(3) by (simp add: no_faults_def)
    ultimately show ?thesis
      using st' w' False b same l2 l3 unfolding rows0_def[symmetric] by simp
  qed
qed

subsection \<open>sendEmail\<close>

lemma sendEmail_effect:
  assumes "sendEmail sid w = (r, w')"
  shows "exports w' = Suc (exports w)" and "sends w' \<le> Suc (sends w)" and "\<not> tempfile w'"
    and "lookups w' = lookups w" and "folders w' = folders w" and "files w' = files w"
    and "\<And>i. no_faults w \<Longrightarrow> sid = Some i \<Longrightarrow> find_file i w \<noteq> None \<Longrightarrow>
           sends w' = Suc (sends w) \<and> r = Inr ()"
  using assms
  by (auto simp: sendEmail_def drive_export_def writeFile_def unlink_def andThen_def request_def
      exports_def sends_def lookups_def no_faults_def
      split: if_splits option.splits prod.splits sum.splits)

subsection \<open>The whole run\<close>

lemma authorize_effect:
  "authorize w = (r, w') \<Longrightarrow> w' = w\<lparr>calls := calls w @ [Authorize]\<rparr>"
  by (auto simp: authorize_def request_def split: if_splits)

lemma main_cases:
  assumes "main w = (st, w')"
  obtains (aborted) "st = initial_state" "quiet w w'" "lookups w' = lookups w"
      "folders w' = folders w" "files w' = files w"
    | (looped) ms w1 w2 w3 where "authorize w = (Inr (), w1)" "queryEmails w1 = (Inr ms, w2)"
      "process_messages ms initial_state w2 = (st, w3)"
      "if 0 < processedCount st then \<exists>r. sendEmail (spreadsheetId st) w3 = (r, w') else w' = w3"
proof -
  obtain r1 w1 where a: "authorize w = (r1, w1)" by (cases "authorize w")
  note a1 = authorize_effect[OF a]
  show ?thesis
  proof (cases r1)
    case (Inl e)
    with assms a have "st = initial_state" "w' = w1" by (simp_all add: main_def)
    moreover have "quiet w w1" using a by (rule quiet_authorize)
    moreover have "lookups w1 = lookups w" by (simp add: a1 lookups_def)
    ultimately show ?thesis using aborted a1 by simp
  next
    case (Inr u)
    obtain r2 w2 where q: "queryEmails w1 = (r2, w2)" by (cases "queryEmails w1")
    show ?thesis
    proof (cases r2)
      case (Inl e)
      with assms a Inr q have "st = initial_state" "w' = w2" by (simp_all add: main_def)
      moreover have "quiet w w2"
        using quiet_trans[OF quiet_authorize[OF a] quiet_queryEmails[OF q]] .
      moreover have "lookups w2 = lookups w"
        using lookups_queryEmails[OF q] by (simp add: a1 lookups_def)
      moreover have "folders w2 = folders w" "files w2 = files w"
        using keepsD[OF keeps_queryEmails q, of folders] keepsD[OF keeps_queryEmails q, of files]
        by (simp_all add: a1)
      ultimately show ?thesis using aborted by simp
    next
      case ms: (Inr ms)
      obtain st3 w3 where l: "process_messages ms initial_state w2 = (st3, w3)"
        by (cases "process_messages ms initial_state w2")
      from assms a Inr q ms l have st: "st = st3"
        by (auto simp: main_def split: if_splits prod.splits)
      from assms a Inr q ms l st
      have "if 0 < processedCount st then \<exists>r. sendEmail (spreadsheetId st) w3 = (r, w') else w' = w3"
        by (auto simp: main_def split: if_splits prod.splits)
      with a Inr q ms l st show ?thesis using looped by simp
    qed
  qed
qed

section \<open>Resolution, dispatch, deduplication\<close>

lemma cache_ok_initial: "cache_ok initial_state w"
  by (simp add: cache_ok_def initial_state_def)

lemma process_message_lookups:
  assumes nf: "no_faults w" and ok: "cache_ok st w"
    and c: "spreadsheetId st = None \<longleftrightarrow> processedCount st + skippedCount st = 0"
    and run: "process_message i st w = (st', w')"
  shows "no_faults w' \<and> cache_ok st' w' \<and>
     (spreadsheetId st' = None \<longleftrightarrow> processedCount st' + skippedCount st' = 0) \<and>
     lookups w' + (if processedCount st + skippedCount st = 0 then 0 else 1) + processedCount st =
     lookups w + (if processedCount st' + skippedCount st' = 0 then 0 else 1) + processedCount st'"
proof -
  obtain r1 w1 where e: "extractSignupInfo i w = (r1, w1)" by (cases "extractSignupInfo i w")
  note ok' = process_message_inv(1)[OF run ok]
  show ?thesis
  proof (cases r1)
    case (Inl err)
    with e run have "st' = st" "w' = w1" by (simp_all add: process_message_def)
    moreover have "no_faults w1" using nf extract_drive(3)[OF e] by (simp add: no_faults_def)
    moreover have "lookups w1 = lookups w" using e by (rule lookups_extract)
    ultimately show ?thesis using ok' c by simp
  next
    case (Inr d)
    with e have ex: "extractSignupInfo i w = (Inr d, w1)" by simp
    from process_message_nofault[OF nf ok ex run] c ok' show ?thesis
      by (auto split: if_splits)
  qed
qed

lemma process_messages_lookups:
  "no_faults w \<Longrightarrow> cache_ok st w \<Longrightarrow>
   (spreadsheetId st = None \<longleftrightarrow> processedCount st + skippedCount st = 0) \<Longrightarrow>
   process_messages ms st w = (st', w') \<Longrightarrow>
   lookups w' + (if processedCount st + skippedCount st = 0 then 0 else 1) + processedCount st =
   lookups w + (if processedCount st' + skippedCount st' = 0 then 0 else 1) + processedCount st'"
proof (induction ms arbitrary: st w)
  case Nil
  then show ?case by simp
next
  case (Cons m ms)
  obtain st1 w1 where s: "process_message m st w = (st1, w1)"
    by (cases "process_message m st w")
  have r: "process_messages ms st1 w1 = (st', w')" using Cons.prems(4) by (simp add: s)
  note step = process_message_lookups[OF Cons.prems(1,2,3) s]
  from step have a: "no_faults w1" "cache_ok st1 w1"
    "spreadsheetId st1 = None \<longleftrightarrow> processedCount st1 + skippedCount st1 = 0" by simp_all
  from Cons.IH[OF a r] step show ?case by simp
qed

text \<open>
  C2, amended. In a run without transport failure, \<open>createOrGetSpreadsheet\<close> (each run
  of it starts with one folder lookup) runs once for the first message that is
  extracted, and once more in every append.
\<close>

theorem main_lookups:
  assumes "no_faults w" and "main w = (st, w')"
  shows "lookups w' =
         lookups w + (if processedCount st + skippedCount st = 0 then 0 else 1) + processedCount st"
  using assms(2)
proof (cases rule: main_cases)
  case aborted
  then show ?thesis by (simp add: initial_state_def)
next
  case (looped ms w1 w2 w3)
  have w1: "w1 = w\<lparr>calls := calls w @ [Authorize]\<rparr>" using looped(1) by (rule authorize_effect)
  have nf1: "no_faults w1" using assms(1) by (simp add: w1)
  have nf2: "no_faults w2"
    using nf1 keepsD[OF keeps_queryEmails looped(2), of faults] by (simp add: no_faults_def)
  have l2: "lookups w2 = lookups w"
    using lookups_queryEmails[OF looped(2)] by (simp add: w1 lookups_def)
  have "lookups w3 + (if processedCount initial_state + skippedCount initial_state = 0 then 0 else 1)
          + processedCount initial_state =
        lookups w2 + (if processedCount st + skippedCount st = 0 then 0 else 1) + processedCount st"
    by (rule process_messages_lookups[OF nf2 cache_ok_initial _ looped(3)])
       (simp add: initial_state_def)
  then have l3: "lookups w3 =
        lookups w + (if processedCount st + skippedCount st = 0 then 0 else 1) + processedCount st"
    using l2 by (simp add: initial_state_def)
  have "lookups w' = lookups w3"
  proof (cases "0 < processedCount st")
    case True
    with looped(4) obtain r where s: "sendEmail (spreadsheetId st) w3 = (r, w')" by auto
    from sendEmail_effect(4)[OF s] show ?thesis .
  next
    case False
    with looped(4) show ?thesis by simp
  qed
  with l3 show ?thesis by simp
qed




section \<open>The runs from the example states\<close>

lemmas count_defs = lookups_def exports_def sends_def find_store_def rows_of_def

lemma main_base:
  "fst (main base_world) = \<lparr>spreadsheetId = Some 20, processedCount = 1, skippedCount = 0\<rparr>"
  "calls (snd (main base_world)) =
     [Authorize, MessagesList primary_query 100, MessagesGet 1 Metadata, MessagesGet 1 Full,
      FilesListFolders, FilesListSheets 10, SpreadsheetsGet 20, ValuesGet 20, FilesListFolders,
      FilesListSheets 10, SpreadsheetsGet 20,
      ValuesAppend 20 USER_ENTERED
        [js ''16 March 2024'', js ''Jane Doe'', js ''0712345678'', js ''jane@example.org''],
      MessagesModify 1, FilesExport (Some 20), SendMail]"
  by (simp_all add: example_defs eval_defs rx_defs)


lemma main_twin:
  "fst (main twin_world) = \<lparr>spreadsheetId = Some 20, processedCount = 2, skippedCount = 0\<rparr>"
  "rows_of (snd (main twin_world)) 20 =
     [header_row,
      [js ''16 March 2024'', js ''Jane Doe'', js ''712345678'', js ''jane@example.org''],
      [js ''16 March 2024'', js ''Jane Doe'', js ''712345678'', js ''jane@example.org'']]"
  by (simp_all add: example_defs eval_defs rx_defs rows_of_def)


lemma no_faults_examples:
  "no_faults base_world" "no_faults twin_world" "no_faults seen_world"
  by (simp_all add: no_faults_def example_defs)

lemma counts_base:
  "lookups base_world = 0" "exports base_world = 0" "sends base_world = 0"
  "lookups twin_world = 0"
  by (simp_all add: count_defs example_defs)



text \<open>
  C2, as stated, fails: in the run from \<open>base_world\<close>, which has one message to record
  and no transport failure, \<open>createOrGetSpreadsheet\<close> runs twice.
\<close>

theorem main_lookups_counterexample:
  "processedCount (fst (main base_world)) = 1 \<and> lookups base_world = 0 \<and>
   lookups (snd (main base_world)) = 2"
  using main_base counts_base by (simp add: lookups_def)

theorem main_lookups_witness:
  "no_faults twin_world \<and> lookups twin_world = 0 \<and>
   fst (main twin_world) = \<lparr>spreadsheetId = Some 20, processedCount = 2, skippedCount = 0\<rparr> \<and>
   lookups (snd (main twin_world)) = 3"
proof -
  have m: "main twin_world = (fst (main twin_world), snd (main twin_world))" by simp
  from main_lookups[OF no_faults_examples(2) m] main_twin(1) counts_base(4)
  have "lookups (snd (main twin_world)) = 3" by simp
  then show ?thesis using no_faults_examples(2) counts_base(4) main_twin(1) by simp
qed








end
